theory Spec2Isabelle
  imports Main "HOL-Library.AList"
begin

section \<open>Delegation escrow coordinator of keri.app.delegating\<close>

text \<open>
  A shallow embedding of \<^verbatim>\<open>src/keri/app/delegating.py\<close>: the class \<^verbatim>\<open>Boatswain\<close>
  (\<^verbatim>\<open>delegation\<close>, \<^verbatim>\<open>complete\<close>, \<^verbatim>\<open>processEscrows\<close> and its two scans), the
  generator \<^verbatim>\<open>DelegateRequestHandler.do\<close> and the helper \<^verbatim>\<open>delegateRequestExn\<close>.
  Objects that the module mutates (the escrow stores, the outbound queues) are fields of
  one state record that every operation takes and returns. Every \<^verbatim>\<open>raise\<close> and every
  failing dictionary access is a value \<open>Inl e\<close> of the result type.
\<close>

subsection \<open>Data\<close>

text \<open>
  An anchor is the dictionary \<^verbatim>\<open>dict(i=..., s=..., d=...)\<close>; a key event dictionary
  (\<^verbatim>\<open>ked\<close>) is opaque to this module and kept as a list of fields.
\<close>

type_synonym anchor = "string \<times> nat \<times> string"

type_synonym ked = "(string \<times> string) list"

text \<open>
  \<^verbatim>\<open>coring.Serder\<close>, as far as the module reads it: \<^verbatim>\<open>.pre\<close>, \<^verbatim>\<open>.sn\<close>, \<^verbatim>\<open>.said\<close>
  (also read as \<^verbatim>\<open>.saidb\<close> and \<^verbatim>\<open>.saider\<close>), \<^verbatim>\<open>.ked\<close>, and the seals an event
  anchors.
\<close>

record serder =
  serder_pre :: string
  serder_sn :: nat
  serder_said :: string
  serder_ked :: ked
  serder_seals :: "anchor list"

text \<open>
  \<^verbatim>\<open>Kever\<close>, the verified key state of one identifier: \<^verbatim>\<open>.prefixer.qb64\<close>,
  \<^verbatim>\<open>.delegator\<close> (\<^verbatim>\<open>None\<close> when not delegated), \<^verbatim>\<open>.sn\<close> (the property returns
  \<^verbatim>\<open>.sner.num\<close>, so both readings are this field), \<^verbatim>\<open>.wits\<close> and \<^verbatim>\<open>.serder\<close>, the
  latest event of the key state.
\<close>

record kever =
  kever_prefixer :: string
  kever_delegator :: "string option"
  kever_sn :: nat
  kever_wits :: "string list"
  kever_serder :: serder

text \<open>
  A local identifier is a \<^verbatim>\<open>Hab\<close> or a \<^verbatim>\<open>GroupHab\<close> (with its member hab \<^verbatim>\<open>.mhab\<close> and
  the signing member prefixes \<^verbatim>\<open>.smids\<close>). The second field holds the own events that
  \<^verbatim>\<open>makeOwnEvent\<close> can retrieve, by sequence number: the digest, the key event
  dictionary and the seals of the event, and the signature bytes that follow the event in
  the message.
\<close>

record own_event =
  own_said :: string
  own_ked :: ked
  own_seals :: "anchor list"
  own_sigs :: string

datatype hab =
  Hab string "(nat \<times> own_event) list"
| GroupHab string "(nat \<times> own_event) list" hab "string list"

fun hab_pre :: "hab \<Rightarrow> string" where
  "hab_pre (Hab p evs) = p"
| "hab_pre (GroupHab p evs m ids) = p"

fun hab_events :: "hab \<Rightarrow> (nat \<times> own_event) list" where
  "hab_events (Hab p evs) = evs"
| "hab_events (GroupHab p evs m ids) = evs"

text \<open>
  The exceptions of the module. The three \<^verbatim>\<open>kering.ValidationError\<close>s of
  \<^verbatim>\<open>delegation\<close> are told apart by their messages and carry the names of the
  specification; the one of \<^verbatim>\<open>complete\<close> is \<open>InconsistentDelegation\<close>. \<open>KeyError\<close> is a
  dictionary access at a missing key, \<open>MissingEntryError\<close> is \<^verbatim>\<open>makeOwnEvent\<close> without an
  event at the sequence number.
\<close>

datatype error =
  UnknownLocalIdentifier
| UnknownDelegator
| NoProxyAvailable
| InconsistentDelegation
| KeyError
| MissingEntryError

text \<open>The payload of a \<^verbatim>\<open>/delegate/request\<close> message: a dictionary whose keys may be absent.\<close>

record payload =
  pay_delpre :: "string option"
  pay_ked :: "ked option"
  pay_aids :: "string list option"

text \<open>The \<^verbatim>\<open>exn\<close> message built by \<^verbatim>\<open>exchanging.exchange(route, modifiers, payload)\<close>.\<close>

record exn =
  exn_route :: string
  exn_modifiers :: "(string \<times> string) list"
  exn_payload :: payload

text \<open>
  What \<^verbatim>\<open>hab.endorse(serder=exn, last=True, pipelined=False)\<close> leaves after the
  message itself is cut off: the signature of the endorsing hab over the message,
  kept symbolically.
\<close>

datatype attachment = Endorsement hab exn | Attached string

datatype body = ExnBody exn | EventBody serder

text \<open>One call of \<^verbatim>\<open>postman.send(hab, dest, topic, serder, attachment)\<close>.\<close>

record sent =
  sent_hab :: hab
  sent_dest :: string
  sent_topic :: string
  sent_serder :: body
  sent_attachment :: attachment

text \<open>One call of \<^verbatim>\<open>witq.query(hab, pre, anchor)\<close>.\<close>

record query =
  query_hab :: hab
  query_pre :: string
  query_anchor :: anchor

text \<open>A receipt request or a completion cue of the \<^verbatim>\<open>Receiptor\<close>: \<^verbatim>\<open>dict(pre=..., sn=...)\<close>.\<close>

record cue =
  cue_pre :: string
  cue_sn :: nat

text \<open>
  The state of a \<^verbatim>\<open>Boatswain\<close>. \<open>habs\<close> and \<open>kevers\<close> are the dictionaries of the
  \<^verbatim>\<open>Habery\<close>, each keyed by the prefix of the object it holds, so a lookup searches for
  the object with that prefix. \<open>dune\<close>, \<open>dpwe\<close> and \<open>cdel\<close> are the stores of unanchored
  events, of partially witnessed events and of completed delegations; \<open>aess\<close> holds the
  authorizer seal couples under digest keys; \<open>wigs\<close> reads the witness signatures kept
  under a digest key (the store keeps each signature once); \<open>kels\<close> is the event log of
  each identifier. \<open>postman\<close>, \<open>witq\<close>, \<open>witDoer_msgs\<close> are the calls and requests
  handed to the three collaborators, \<open>witDoer_cues\<close> the cues the \<^verbatim>\<open>Receiptor\<close> reports.
\<close>

type_synonym dgkey = "string \<times> string"

record boatswain =
  habs :: "hab list"
  kevers :: "kever list"
  dune :: "((string \<times> string) \<times> serder) list"
  dpwe :: "((string \<times> string) \<times> serder) list"
  cdel :: "((string \<times> nat) \<times> string) list"
  aess :: "(dgkey \<times> (nat \<times> string)) list"
  wigs :: "dgkey \<Rightarrow> string list"
  kels :: "string \<Rightarrow> serder list"
  postman :: "sent list"
  witq :: "query list"
  witDoer_msgs :: "cue list"
  witDoer_cues :: "cue list"

subsection \<open>Dictionaries and stores\<close>

text \<open>\<^verbatim>\<open>hby.habs[pre]\<close> and \<^verbatim>\<open>hby.kevers[pre]\<close>; \<open>None\<close> is the missing key.\<close>

definition getHab :: "hab list \<Rightarrow> string \<Rightarrow> hab option" where
  "getHab hs p = find (\<lambda>h. hab_pre h = p) hs"

definition getKever :: "kever list \<Rightarrow> string \<Rightarrow> kever option" where
  "getKever ks p = find (\<lambda>k. kever_prefixer k = p) ks"

text \<open>A subscript \<^verbatim>\<open>d[k]\<close> raises \<^verbatim>\<open>KeyError\<close> at a missing key.\<close>

definition getitem :: "'a option \<Rightarrow> error + 'a" where
  "getitem v = (case v of None \<Rightarrow> Inl KeyError | Some x \<Rightarrow> Inr x)"

text \<open>
  \<^verbatim>\<open>dbing.dgKey(pre, dig)\<close> joins prefix and digest into one database key; the pair
  stands for the joined bytes. The couple \<^verbatim>\<open>seqner.qb64b + dserder.saidb\<close> is likewise
  the pair of the sequence number and the digest.
\<close>

definition dgKey :: "string \<Rightarrow> string \<Rightarrow> dgkey" where
  "dgKey p dig = (p, dig)"

text \<open>
  Modelled from the spec: the store classes are not part of the module. The escrow
  stores offer \<^verbatim>\<open>pin\<close> (insert, replacing the value of an existing key), \<^verbatim>\<open>rem\<close>
  (remove the key), \<^verbatim>\<open>get\<close> and \<^verbatim>\<open>getItemIter\<close>, which visits every entry that is live
  when the scan starts (the order is not significant; here it is the order of the list).
  The completion index is write-once: \<^verbatim>\<open>put\<close> at a key that already holds a record
  leaves that record in place.
\<close>

definition pin :: "'k \<Rightarrow> 'v \<Rightarrow> ('k \<times> 'v) list \<Rightarrow> ('k \<times> 'v) list" where
  "pin k v al = AList.update k v al"

definition rem :: "'k \<Rightarrow> ('k \<times> 'v) list \<Rightarrow> ('k \<times> 'v) list" where
  "rem k al = AList.delete k al"

definition get :: "('k \<times> 'v) list \<Rightarrow> 'k \<Rightarrow> 'v option" where
  "get al k = map_of al k"

definition put :: "'k \<Rightarrow> 'v \<Rightarrow> ('k \<times> 'v) list \<Rightarrow> ('k \<times> 'v) list" where
  "put k v al = (case map_of al k of None \<Rightarrow> al @ [(k, v)] | Some old \<Rightarrow> al)"

definition getItemIter :: "('k \<times> 'v) list \<Rightarrow> ('k \<times> 'v) list" where
  "getItemIter al = al"

text \<open>
  A \<^verbatim>\<open>for\<close> loop over the items of a scan: the body runs on each item in turn and an
  exception raised by the body ends the loop (and the scan) with that exception.
\<close>

fun forEach :: "('a \<Rightarrow> 's \<Rightarrow> error + 's) \<Rightarrow> 'a list \<Rightarrow> 's \<Rightarrow> error + 's" where
  "forEach body [] s = Inr s"
| "forEach body (x # xs) s =
     (case body x s of Inl e \<Rightarrow> Inl e | Inr s' \<Rightarrow> forEach body xs s')"

text \<open>
  Modelled from the spec: \<^verbatim>\<open>db.findAnchoringEvent(pre, anchor)\<close> is not part of the
  module. It returns an event of the log of \<open>pre\<close> one of whose seals equals the anchor
  in all three fields, and \<^verbatim>\<open>None\<close> when the log has no such event.
\<close>

definition findAnchoringEvent :: "(string \<Rightarrow> serder list) \<Rightarrow> string \<Rightarrow> anchor \<Rightarrow> serder option" where
  "findAnchoringEvent logs p anchor = find (\<lambda>evt. anchor \<in> set (serder_seals evt)) (logs p)"

text \<open>
  Modelled from the spec: \<^verbatim>\<open>hab.makeOwnEvent(sn)\<close> is not part of the module. It
  retrieves the hab's own event at sequence number \<open>sn\<close> with its attached signatures,
  and raises when the hab has no event there. The result is the pair that
  \<^verbatim>\<open>srdr = coring.Serder(raw=evt)\<close> and \<^verbatim>\<open>del evt[:srdr.size]\<close> split the message into.
\<close>

definition makeOwnEvent :: "hab \<Rightarrow> nat \<Rightarrow> error + (serder \<times> attachment)" where
  "makeOwnEvent hab sn =
     (case map_of (hab_events hab) sn of
        None \<Rightarrow> Inl MissingEntryError
      | Some ev \<Rightarrow>
          Inr (\<lparr>serder_pre = hab_pre hab, serder_sn = sn, serder_said = own_said ev,
                 serder_ked = own_ked ev, serder_seals = own_seals ev\<rparr>,
               Attached (own_sigs ev)))"

subsection \<open>delegateRequestExn\<close>

definition resource :: string where
  "resource = ''/delegate/request''"

text \<open>
  \<^verbatim>\<open>delegateRequestExn(hab, delpre, ked, aids=None)\<close>: the payload holds \<^verbatim>\<open>delpre\<close> and
  \<^verbatim>\<open>ked\<close>, and \<^verbatim>\<open>aids\<close> when the argument is not \<^verbatim>\<open>None\<close>; the result is the message
  and the endorsement of \<open>hab\<close>.
\<close>

definition delegateRequestExn :: "hab \<Rightarrow> string \<Rightarrow> ked \<Rightarrow> string list option \<Rightarrow> exn \<times> attachment" where
  "delegateRequestExn hab delpre kd aids =
     (let data = \<lparr>pay_delpre = Some delpre, pay_ked = Some kd, pay_aids = None\<rparr>;
          data = (case aids of None \<Rightarrow> data | Some a \<Rightarrow> data\<lparr>pay_aids := Some a\<rparr>);
          ex = \<lparr>exn_route = resource, exn_modifiers = [], exn_payload = data\<rparr>;
          ims = Endorsement hab ex
      in (ex, ims))"

subsection \<open>Boatswain.delegation\<close>

text \<open>
  Lines 70 to 79: the hab that sends the messages and the member prefixes that go into
  the request. A group sends through its member hab; any other identifier sends for
  itself once the sequence number of its key state is above zero; otherwise the proxy
  sends, and without a proxy the call fails.
\<close>

definition sendingHab :: "hab \<Rightarrow> kever \<Rightarrow> hab option \<Rightarrow> error + (hab \<times> string list)" where
  "sendingHab hab kv proxy =
     (case hab of
        GroupHab p evs mhab smids \<Rightarrow> Inr (mhab, smids)
      | Hab p evs \<Rightarrow>
          if kever_sn kv > 0 then Inr (hab, [])
          else (case proxy of
                  Some phab \<Rightarrow> Inr (phab, [])
                | None \<Rightarrow> Inl NoProxyAvailable))"

text \<open>
  \<^verbatim>\<open>delegation(pre, sn=None, proxy=None)\<close>. \<^verbatim>\<open>hab.kever\<close> is the entry of \<open>kevers\<close> at
  the hab's own prefix; \<^verbatim>\<open>delpre not in hab.kevers\<close> also holds for an identifier
  without a delegator, whose \<^verbatim>\<open>delpre\<close> is \<^verbatim>\<open>None\<close>.
\<close>

definition delegation :: "boatswain \<Rightarrow> string \<Rightarrow> nat option \<Rightarrow> hab option \<Rightarrow> error + boatswain" where
  "delegation bs pre sn proxy =
     (case getHab (habs bs) pre of
        None \<Rightarrow> Inl UnknownLocalIdentifier
      | Some hab \<Rightarrow>
     (case getitem (getKever (kevers bs) (hab_pre hab)) of
        Inl e \<Rightarrow> Inl e
      | Inr kv \<Rightarrow>
     (case (case kever_delegator kv of
              None \<Rightarrow> None
            | Some d \<Rightarrow> map_option (Pair d) (getKever (kevers bs) d)) of
        None \<Rightarrow> Inl UnknownDelegator
      | Some (delpre, dkever) \<Rightarrow>
     (case makeOwnEvent hab (case sn of None \<Rightarrow> kever_sn kv | Some n \<Rightarrow> n) of
        Inl e \<Rightarrow> Inl e
      | Inr (srdr, evt) \<Rightarrow>
     (case sendingHab hab kv proxy of
        Inl e \<Rightarrow> Inl e
      | Inr (phab, smids) \<Rightarrow>
          (let (ex, atc) = delegateRequestExn phab delpre (serder_ked srdr) (Some smids);
               anchor = (serder_pre srdr, serder_sn srdr, serder_said srdr)
           in Inr (bs\<lparr>postman := postman bs @
                          [\<lparr>sent_hab = phab, sent_dest = delpre, sent_topic = ''delegate'',
                            sent_serder = ExnBody ex, sent_attachment = atc\<rparr>,
                           \<lparr>sent_hab = phab, sent_dest = delpre, sent_topic = ''delegate'',
                            sent_serder = EventBody srdr, sent_attachment = evt\<rparr>],
                        witq := witq bs @
                          [\<lparr>query_hab = phab, query_pre = kever_prefixer dkever,
                            query_anchor = anchor\<rparr>],
                        dune := pin (serder_pre srdr, serder_said srdr) srdr (dune bs)\<rparr>)))))))"

subsection \<open>Boatswain.complete\<close>

text \<open>
  \<^verbatim>\<open>complete(prefixer, seqner, saider=None)\<close>: the record of \<open>cdel\<close> at
  \<^verbatim>\<open>(prefixer.qb64, seqner.qb64)\<close>; \<open>False\<close> without one; with one and a \<^verbatim>\<open>saider\<close>
  whose digest differs, the \<^verbatim>\<open>ValidationError\<close>; else \<open>True\<close>.
\<close>

definition complete :: "boatswain \<Rightarrow> string \<Rightarrow> nat \<Rightarrow> string option \<Rightarrow> error + bool" where
  "complete bs prefixer seqner saider =
     (case get (cdel bs) (prefixer, seqner) of
        None \<Rightarrow> Inr False
      | Some csaider \<Rightarrow>
          (case saider of
             None \<Rightarrow> Inr True
           | Some sd \<Rightarrow> if csaider \<noteq> sd then Inl InconsistentDelegation else Inr True))"

subsection \<open>The escrow scans\<close>

text \<open>
  The body of the loop of \<^verbatim>\<open>processUnanchoredEscrow\<close> for one item
  \<^verbatim>\<open>(pre, said), serder\<close>. \<^verbatim>\<open>kevers[kever.delegator]\<close> raises for an identifier without
  a delegator as it does for an unknown one.
\<close>

definition unanchoredItem :: "(string \<times> string) \<times> serder \<Rightarrow> boatswain \<Rightarrow> error + boatswain" where
  "unanchoredItem item bs =
     (case item of ((pre, said), srdr) \<Rightarrow>
     (case getitem (getKever (kevers bs) pre) of
        Inl e \<Rightarrow> Inl e
      | Inr kv \<Rightarrow>
     (case getitem (case kever_delegator kv of
                      None \<Rightarrow> None
                    | Some d \<Rightarrow> getKever (kevers bs) d) of
        Inl e \<Rightarrow> Inl e
      | Inr dkever \<Rightarrow>
          (let anchor = (serder_pre srdr, serder_sn srdr, serder_said srdr) in
           case findAnchoringEvent (kels bs) (kever_prefixer dkever) anchor of
             None \<Rightarrow> Inr bs
           | Some dserder \<Rightarrow>
               (let couple = (serder_sn dserder, serder_said dserder);
                    dgkey = dgKey (kever_prefixer kv) (serder_said (kever_serder kv))
                in Inr (bs\<lparr>aess := pin dgkey couple (aess bs),
                             witDoer_msgs := witDoer_msgs bs @
                               [\<lparr>cue_pre = pre, cue_sn = serder_sn srdr\<rparr>],
                             dpwe := pin (pre, said) srdr (dpwe bs),
                             dune := rem (pre, said) (dune bs)\<rparr>))))))"

definition processUnanchoredEscrow :: "boatswain \<Rightarrow> error + boatswain" where
  "processUnanchoredEscrow bs = forEach unanchoredItem (getItemIter (dune bs)) bs"

text \<open>
  The inner loop of \<^verbatim>\<open>processPartialWitnessEscrow\<close> over the cues: \<^verbatim>\<open>witnessed\<close>
  starts \<open>False\<close> and a matching cue sets it.
\<close>

fun witnessedLoop :: "cue list \<Rightarrow> serder \<Rightarrow> bool \<Rightarrow> bool" where
  "witnessedLoop [] srdr witnessed = witnessed"
| "witnessedLoop (c # cs) srdr witnessed =
     witnessedLoop cs srdr
       (if cue_pre c = serder_pre srdr \<and> cue_sn c = serder_sn srdr then True else witnessed)"

text \<open>The body of the loop of \<^verbatim>\<open>processPartialWitnessEscrow\<close> for one item.\<close>

definition partialWitnessItem :: "(string \<times> string) \<times> serder \<Rightarrow> boatswain \<Rightarrow> error + boatswain" where
  "partialWitnessItem item bs =
     (case item of ((pre, said), srdr) \<Rightarrow>
     (case getitem (getKever (kevers bs) pre) of
        Inl e \<Rightarrow> Inl e
      | Inr kv \<Rightarrow>
          (let dgkey = dgKey pre (serder_said srdr);
               seqner = serder_sn srdr;
               ws = wigs bs dgkey
           in if length ws = length (kever_wits kv) then
                if length (kever_wits kv) > 0 \<and> \<not> witnessedLoop (witDoer_cues bs) srdr False
                then Inr bs
                else Inr (bs\<lparr>dpwe := rem (pre, said) (dpwe bs),
                              cdel := put (pre, seqner) (serder_said srdr) (cdel bs)\<rparr>)
              else Inr bs)))"

definition processPartialWitnessEscrow :: "boatswain \<Rightarrow> error + boatswain" where
  "processPartialWitnessEscrow bs = forEach partialWitnessItem (getItemIter (dpwe bs)) bs"

text \<open>\<^verbatim>\<open>processEscrows\<close>, one tick of \<^verbatim>\<open>escrowDo\<close>: the two scans, in this order.\<close>

definition processEscrows :: "boatswain \<Rightarrow> error + boatswain" where
  "processEscrows bs =
     (case processUnanchoredEscrow bs of
        Inl e \<Rightarrow> Inl e
      | Inr bs' \<Rightarrow> processPartialWitnessEscrow bs')"

text \<open>
  \<^verbatim>\<open>escrowDo\<close> runs \<^verbatim>\<open>processEscrows\<close> once per tick for ever; \<open>ticks n\<close> is its first
  \<open>n\<close> ticks. An exception of a tick ends the generator.
\<close>

fun ticks :: "nat \<Rightarrow> boatswain \<Rightarrow> error + boatswain" where
  "ticks 0 bs = Inr bs"
| "ticks (Suc n) bs =
     (case processEscrows bs of Inl e \<Rightarrow> Inl e | Inr bs' \<Rightarrow> ticks n bs')"

subsection \<open>DelegateRequestHandler.do\<close>

text \<open>
  A message of the handler's queue is a dictionary that may hold \<^verbatim>\<open>pre\<close> (the sender's
  \<^verbatim>\<open>Prefixer\<close>, read through \<^verbatim>\<open>.qb64\<close>) and \<^verbatim>\<open>payload\<close>.
\<close>

record msg =
  msg_pre :: "string option"
  msg_payload :: "payload option"

text \<open>The attributes handed to \<^verbatim>\<open>notifier.add\<close>.\<close>

record notice =
  note_src :: string
  note_r :: string
  note_delpre :: string
  note_ked :: ked
  note_aids :: "string list option"

text \<open>
  The handler: the local identifiers, the queue \<^verbatim>\<open>msgs\<close>, the notifications added so
  far and the errors logged so far.
\<close>

record handler =
  handler_habs :: "hab list"
  handler_msgs :: "msg list"
  notifier :: "notice list"
  logged :: "string list"






subsection \<open>Notions used in the statements and proofs\<close>

text \<open>
  None of the definitions below is part of the module: they name what its loops read
  and write, so that the effect of a whole scan can be stated.
\<close>

text \<open>The anchor that the Unanchored scan builds for an escrowed event (line 153).\<close>

definition anchorOf :: "serder \<Rightarrow> anchor" where
  "anchorOf srdr = (serder_pre srdr, serder_sn srdr, serder_said srdr)"

text \<open>
  The key state of the delegator of \<open>p\<close>, as lines 150 and 151 look it up:
  \<^verbatim>\<open>kevers[kevers[p].delegator]\<close>; \<open>None\<close> where one of the two subscripts raises.
\<close>

definition delegatorOf :: "kever list \<Rightarrow> string \<Rightarrow> kever option" where
  "delegatorOf ks p =
     (case getKever ks p of
        None \<Rightarrow> None
      | Some kv \<Rightarrow> (case kever_delegator kv of None \<Rightarrow> None | Some d \<Rightarrow> getKever ks d))"

text \<open>
  The test of line 154 for an item of the Unanchored store: an anchoring event is found
  in the log of the delegator.
\<close>

definition anchored :: "kever list \<Rightarrow> (string \<Rightarrow> serder list) \<Rightarrow> (string \<times> string) \<times> serder \<Rightarrow> bool" where
  "anchored ks logs item =
     (case delegatorOf ks (fst (fst item)) of
        None \<Rightarrow> False
      | Some dk \<Rightarrow> findAnchoringEvent logs (kever_prefixer dk) (anchorOf (snd item)) \<noteq> None)"

text \<open>
  The test of lines 180 to 187 for an item of the PartiallyWitnessed store: as many
  witness signatures as witnesses and, with at least one witness, a matching cue.
\<close>

definition receipted :: "kever list \<Rightarrow> (dgkey \<Rightarrow> string list) \<Rightarrow> cue list \<Rightarrow> (string \<times> string) \<times> serder \<Rightarrow> bool" where
  "receipted ks wg cues item =
     (case getKever ks (fst (fst item)) of
        None \<Rightarrow> False
      | Some kv \<Rightarrow>
          length (wg (dgKey (fst (fst item)) (serder_said (snd item)))) = length (kever_wits kv) \<and>
          (length (kever_wits kv) = 0 \<or> witnessedLoop cues (snd item) False))"

text \<open>The store operations of the two scans, as functions of the item.\<close>

definition pinItem :: "('k \<times> 'v) \<Rightarrow> ('k \<times> 'v) list \<Rightarrow> ('k \<times> 'v) list" where
  "pinItem item al = pin (fst item) (snd item) al"

definition remItem :: "('k \<times> 'v) \<Rightarrow> ('k \<times> 'v) list \<Rightarrow> ('k \<times> 'v) list" where
  "remItem item al = rem (fst item) al"

text \<open>The receipt request of line 159.\<close>

definition requestOf :: "(string \<times> string) \<times> serder \<Rightarrow> cue" where
  "requestOf item = \<lparr>cue_pre = fst (fst item), cue_sn = serder_sn (snd item)\<rparr>"

text \<open>
  The call \<^verbatim>\<open>setAes(dgkey, couple)\<close> of lines 155 to 158 for an item whose anchoring event
  is found; nothing for any other item.
\<close>

definition aesItem :: "kever list \<Rightarrow> (string \<Rightarrow> serder list) \<Rightarrow> (string \<times> string) \<times> serder
    \<Rightarrow> (dgkey \<times> (nat \<times> string)) list \<Rightarrow> (dgkey \<times> (nat \<times> string)) list" where
  "aesItem ks logs item al =
     (case getKever ks (fst (fst item)) of
        None \<Rightarrow> al
      | Some kv \<Rightarrow>
          (case delegatorOf ks (fst (fst item)) of
             None \<Rightarrow> al
           | Some dk \<Rightarrow>
               (case findAnchoringEvent logs (kever_prefixer dk) (anchorOf (snd item)) of
                  None \<Rightarrow> al
                | Some ds \<Rightarrow>
                    pin (dgKey (kever_prefixer kv) (serder_said (kever_serder kv)))
                      (serder_sn ds, serder_said ds) al)))"

text \<open>The key \<^verbatim>\<open>(pre, seqner.qb64)\<close> of the completion record of an item (line 190).\<close>

definition completionKey :: "(string \<times> string) \<times> serder \<Rightarrow> string \<times> nat" where
  "completionKey item = (fst (fst item), serder_sn (snd item))"

definition putItem :: "(string \<times> string) \<times> serder \<Rightarrow> ((string \<times> nat) \<times> string) list
    \<Rightarrow> ((string \<times> nat) \<times> string) list" where
  "putItem item al = put (completionKey item) (serder_said (snd item)) al"

text \<open>
  No subscript of the two scans raises: every identifier with a record in the Unanchored
  store has its key state and the key state of its delegator in \<open>kevers\<close>, and every
  identifier with a record in the PartiallyWitnessed store has its key state there.
  \<^verbatim>\<open>delegation\<close> inserts a record only after both lookups have succeeded.
\<close>

definition escrowsResolvable :: "boatswain \<Rightarrow> bool" where
  "escrowsResolvable bs \<longleftrightarrow>
     (\<forall>item \<in> set (dune bs). delegatorOf (kevers bs) (fst (fst item)) \<noteq> None) \<and>
     (\<forall>item \<in> set (dpwe bs). getKever (kevers bs) (fst (fst item)) \<noteq> None)"

text \<open>The \<^verbatim>\<open>Serder\<close> of the own event \<open>ev\<close> of \<open>p\<close> at sequence number \<open>n\<close>.\<close>

definition ownSerder :: "string \<Rightarrow> nat \<Rightarrow> own_event \<Rightarrow> serder" where
  "ownSerder p n ev =
     \<lparr>serder_pre = p, serder_sn = n, serder_said = own_said ev,
      serder_ked = own_ked ev, serder_seals = own_seals ev\<rparr>"

text \<open>The message that \<open>delegateRequestExn\<close> builds, with \<open>aids\<close> as it is passed.\<close>

definition requestExn :: "string \<Rightarrow> ked \<Rightarrow> string list option \<Rightarrow> exn" where
  "requestExn delpre kd aids =
     \<lparr>exn_route = ''/delegate/request'', exn_modifiers = [],
      exn_payload = \<lparr>pay_delpre = Some delpre, pay_ked = Some kd, pay_aids = aids\<rparr>\<rparr>"


subsection \<open>Example states\<close>

text \<open>
  An identifier \<open>D\<close> delegated by \<open>P\<close>, without witnesses, with its inception event
  \<open>E0\<close> and a rotation \<open>E1\<close>; the log of \<open>P\<close> holds an event that anchors the seal
  \<open>(D, 1, E1)\<close>.
\<close>

definition habD :: hab where
  "habD = Hab ''D''
     [(0, \<lparr>own_said = ''E0'', own_ked = [(''t'', ''dip'')], own_seals = [], own_sigs = ''sigs0''\<rparr>),
      (1, \<lparr>own_said = ''E1'', own_ked = [(''t'', ''drt'')], own_seals = [], own_sigs = ''sigs1''\<rparr>)]"

definition evD1 :: own_event where
  "evD1 = \<lparr>own_said = ''E1'', own_ked = [(''t'', ''drt'')], own_seals = [], own_sigs = ''sigs1''\<rparr>"

definition srdrD0 :: serder where
  "srdrD0 = \<lparr>serder_pre = ''D'', serder_sn = 0, serder_said = ''E0'',
              serder_ked = [(''t'', ''dip'')], serder_seals = []\<rparr>"

definition srdrD1 :: serder where
  "srdrD1 = \<lparr>serder_pre = ''D'', serder_sn = 1, serder_said = ''E1'',
              serder_ked = [(''t'', ''drt'')], serder_seals = []\<rparr>"

definition srdrP :: serder where
  "srdrP = \<lparr>serder_pre = ''P'', serder_sn = 3, serder_said = ''EP'',
             serder_ked = [(''t'', ''ixn'')], serder_seals = [(''D'', 1, ''E1'')]\<rparr>"

definition keverD :: kever where
  "keverD = \<lparr>kever_prefixer = ''D'', kever_delegator = Some ''P'', kever_sn = 1,
              kever_wits = [], kever_serder = srdrD1\<rparr>"

definition keverP :: kever where
  "keverP = \<lparr>kever_prefixer = ''P'', kever_delegator = None, kever_sn = 3,
              kever_wits = [], kever_serder = srdrP\<rparr>"

definition logsP :: "string \<Rightarrow> serder list" where
  "logsP p = (if p = ''P'' then [srdrP] else [])"

text \<open>Nothing in escrow, \<open>P\<close> has anchored the seal.\<close>

definition bsIdle :: boatswain where
  "bsIdle = \<lparr>habs = [habD], kevers = [keverD, keverP], dune = [], dpwe = [], cdel = [],
              aess = [], wigs = (\<lambda>k. []), kels = logsP,
              postman = [], witq = [], witDoer_msgs = [], witDoer_cues = []\<rparr>"

text \<open>The delegation of \<open>E1\<close> is complete.\<close>

definition bsDone :: boatswain where
  "bsDone = bsIdle\<lparr>cdel := [((''D'', 1), ''E1'')]\<rparr>"

text \<open>The rotation \<open>E1\<close> waits in the Unanchored store.\<close>

definition bsUnanchored :: boatswain where
  "bsUnanchored = bsIdle\<lparr>dune := [((''D'', ''E1''), srdrD1)]\<rparr>"

text \<open>The same, before \<open>P\<close> has anchored anything.\<close>

definition bsWaiting :: boatswain where
  "bsWaiting = bsUnanchored\<lparr>kels := (\<lambda>p. [])\<rparr>"

text \<open>The rotation \<open>E1\<close> waits in the PartiallyWitnessed store; \<open>D\<close> has no witnesses.\<close>

definition bsPartial :: boatswain where
  "bsPartial = bsIdle\<lparr>dpwe := [((''D'', ''E1''), srdrD1)]\<rparr>"

text \<open>
  The same for an identifier with one witness \<open>W\<close>, whose signature is stored, before
  and after the cue of the \<^verbatim>\<open>Receiptor\<close>.
\<close>

definition bsReceipted :: boatswain where
  "bsReceipted = bsPartial\<lparr>kevers := [keverD\<lparr>kever_wits := [''W'']\<rparr>, keverP],
                            wigs := (\<lambda>k. if k = (''D'', ''E1'') then [''sigW''] else [])\<rparr>"

definition bsCued :: boatswain where
  "bsCued = bsReceipted\<lparr>witDoer_cues := [\<lparr>cue_pre = ''D'', cue_sn = 1\<rparr>]\<rparr>"

text \<open>
  The states after the first scan and after the second scan of a tick that starts in
  \<open>bsUnanchored\<close>.
\<close>

definition bsMoved :: boatswain where
  "bsMoved = bsUnanchored\<lparr>aess := [((''D'', ''E1''), (3, ''EP''))],
                          witDoer_msgs := [\<lparr>cue_pre = ''D'', cue_sn = 1\<rparr>],
                          dpwe := [((''D'', ''E1''), srdrD1)],
                          dune := []\<rparr>"

definition bsCompleted :: boatswain where
  "bsCompleted = bsMoved\<lparr>dpwe := [], cdel := [((''D'', 1), ''E1'')]\<rparr>"

text \<open>
  The state after \<^verbatim>\<open>delegation(''D'', sn=1)\<close> in \<open>bsIdle\<close>, and the state after
  \<^verbatim>\<open>delegation(''D'', sn=0)\<close>, which delegates the inception event again.
\<close>

definition exnD1 :: exn where
  "exnD1 = \<lparr>exn_route = ''/delegate/request'', exn_modifiers = [],
            exn_payload = \<lparr>pay_delpre = Some ''P'', pay_ked = Some [(''t'', ''drt'')],
                           pay_aids = Some []\<rparr>\<rparr>"

definition bsInitiated :: boatswain where
  "bsInitiated = bsIdle\<lparr>
     postman := [\<lparr>sent_hab = habD, sent_dest = ''P'', sent_topic = ''delegate'',
                  sent_serder = ExnBody exnD1, sent_attachment = Endorsement habD exnD1\<rparr>,
                 \<lparr>sent_hab = habD, sent_dest = ''P'', sent_topic = ''delegate'',
                  sent_serder = EventBody srdrD1, sent_attachment = Attached ''sigs1''\<rparr>],
     witq := [\<lparr>query_hab = habD, query_pre = ''P'', query_anchor = (''D'', 1, ''E1'')\<rparr>],
     dune := [((''D'', ''E1''), srdrD1)]\<rparr>"

definition exnD0 :: exn where
  "exnD0 = \<lparr>exn_route = ''/delegate/request'', exn_modifiers = [],
            exn_payload = \<lparr>pay_delpre = Some ''P'', pay_ked = Some [(''t'', ''dip'')],
                           pay_aids = Some []\<rparr>\<rparr>"

definition bsInception :: boatswain where
  "bsInception = bsIdle\<lparr>
     postman := [\<lparr>sent_hab = habD, sent_dest = ''P'', sent_topic = ''delegate'',
                  sent_serder = ExnBody exnD0, sent_attachment = Endorsement habD exnD0\<rparr>,
                 \<lparr>sent_hab = habD, sent_dest = ''P'', sent_topic = ''delegate'',
                  sent_serder = EventBody srdrD0, sent_attachment = Attached ''sigs0''\<rparr>],
     witq := [\<lparr>query_hab = habD, query_pre = ''P'', query_anchor = (''D'', 0, ''E0'')\<rparr>],
     dune := [((''D'', ''E0''), srdrD0)]\<rparr>"

text \<open>
  \<open>bsIdle\<close> with the key state of \<open>D\<close> still at its inception, and \<open>bsIdle\<close> without
  the key state of the delegator \<open>P\<close>.
\<close>

definition bsFresh :: boatswain where
  "bsFresh = bsIdle\<lparr>kevers := [keverD\<lparr>kever_sn := 0, kever_serder := srdrD0\<rparr>, keverP]\<rparr>"

definition bsOrphan :: boatswain where
  "bsOrphan = bsIdle\<lparr>kevers := [keverD]\<rparr>"

text \<open>
  A queue of the handler: a message without \<open>pre\<close>, one whose payload lacks \<open>delpre\<close>,
  a request of a group for the local \<open>D\<close>, a request for an identifier that is not
  local, and a request of a single signer.
\<close>

definition msgNoPre :: msg where
  "msgNoPre = \<lparr>msg_pre = None,
     msg_payload = Some \<lparr>pay_delpre = Some ''D'', pay_ked = Some [(''t'', ''dip'')],
                         pay_aids = None\<rparr>\<rparr>"

definition msgNoDelpre :: msg where
  "msgNoDelpre = \<lparr>msg_pre = Some ''S'',
     msg_payload = Some \<lparr>pay_delpre = None, pay_ked = Some [(''t'', ''dip'')],
                         pay_aids = None\<rparr>\<rparr>"

definition msgGroup :: msg where
  "msgGroup = \<lparr>msg_pre = Some ''S'',
     msg_payload = Some \<lparr>pay_delpre = Some ''D'', pay_ked = Some [(''t'', ''dip'')],
                         pay_aids = Some [''M1'', ''M2'']\<rparr>\<rparr>"

definition msgForeign :: msg where
  "msgForeign = \<lparr>msg_pre = Some ''S'',
     msg_payload = Some \<lparr>pay_delpre = Some ''X'', pay_ked = Some [(''t'', ''dip'')],
                         pay_aids = None\<rparr>\<rparr>"

definition msgSingle :: msg where
  "msgSingle = \<lparr>msg_pre = Some ''T'',
     msg_payload = Some \<lparr>pay_delpre = Some ''D'', pay_ked = Some [(''t'', ''drt'')],
                         pay_aids = None\<rparr>\<rparr>"

definition noteGroup :: notice where
  "noteGroup = \<lparr>note_src = ''S'', note_r = ''/delegate/request'', note_delpre = ''D'',
                 note_ked = [(''t'', ''dip'')], note_aids = Some [''M1'', ''M2'']\<rparr>"

definition noteSingle :: notice where
  "noteSingle = \<lparr>note_src = ''T'', note_r = ''/delegate/request'', note_delpre = ''D'',
                  note_ked = [(''t'', ''drt'')], note_aids = None\<rparr>"

definition handlerQ :: handler where
  "handlerQ = \<lparr>handler_habs = [habD],
                handler_msgs = [msgNoPre, msgNoDelpre, msgGroup, msgForeign, msgSingle],
                notifier = [], logged = []\<rparr>"

text \<open>
  The key state of \<open>D\<close> has moved on to an event \<open>E2\<close> at sequence number 2 while the
  rotation \<open>E1\<close> is delegated: \<open>bsAhead\<close> before \<^verbatim>\<open>delegation(''D'', sn=1)\<close>, \<open>bsStale\<close>
  after it, \<open>bsMisfiled\<close> after the Unanchored scan that follows.
\<close>

definition srdrD2 :: serder where
  "srdrD2 = \<lparr>serder_pre = ''D'', serder_sn = 2, serder_said = ''E2'',
              serder_ked = [(''t'', ''ixn'')], serder_seals = []\<rparr>"

definition habD2 :: hab where
  "habD2 = Hab ''D''
     [(0, \<lparr>own_said = ''E0'', own_ked = [(''t'', ''dip'')], own_seals = [], own_sigs = ''sigs0''\<rparr>),
      (1, \<lparr>own_said = ''E1'', own_ked = [(''t'', ''drt'')], own_seals = [], own_sigs = ''sigs1''\<rparr>),
      (2, \<lparr>own_said = ''E2'', own_ked = [(''t'', ''ixn'')], own_seals = [], own_sigs = ''sigs2''\<rparr>)]"

definition bsAhead :: boatswain where
  "bsAhead = bsIdle\<lparr>habs := [habD2],
                      kevers := [keverD\<lparr>kever_sn := 2, kever_serder := srdrD2\<rparr>, keverP]\<rparr>"

definition bsStale :: boatswain where
  "bsStale = bsAhead\<lparr>
     postman := [\<lparr>sent_hab = habD2, sent_dest = ''P'', sent_topic = ''delegate'',
                  sent_serder = ExnBody exnD1, sent_attachment = Endorsement habD2 exnD1\<rparr>,
                 \<lparr>sent_hab = habD2, sent_dest = ''P'', sent_topic = ''delegate'',
                  sent_serder = EventBody srdrD1, sent_attachment = Attached ''sigs1''\<rparr>],
     witq := [\<lparr>query_hab = habD2, query_pre = ''P'', query_anchor = (''D'', 1, ''E1'')\<rparr>],
     dune := [((''D'', ''E1''), srdrD1)]\<rparr>"

definition bsMisfiled :: boatswain where
  "bsMisfiled = bsStale\<lparr>aess := [((''D'', ''E2''), (3, ''EP''))],
                          witDoer_msgs := [\<lparr>cue_pre = ''D'', cue_sn = 1\<rparr>],
                          dpwe := [((''D'', ''E1''), srdrD1)],
                          dune := []\<rparr>"

section \<open>Properties\<close>

subsection \<open>Lookups and loops\<close>

lemma getKever_prefixer: "getKever ks p = Some kv \<Longrightarrow> kever_prefixer kv = p"
  by (auto simp: getKever_def find_Some_iff)

lemma findAnchoringEvent_iff:
  "findAnchoringEvent logs p a \<noteq> None \<longleftrightarrow> (\<exists>e \<in> set (logs p). a \<in> set (serder_seals e))"
  by (auto simp: findAnchoringEvent_def find_None_iff)

lemma witnessedLoop_iff:
  "witnessedLoop cs srdr w \<longleftrightarrow>
     w \<or> (\<exists>c \<in> set cs. cue_pre c = serder_pre srdr \<and> cue_sn c = serder_sn srdr)"
  by (induction cs arbitrary: w) auto

subsection \<open>The bodies of the two loops\<close>

lemma unanchoredItem_error:
  "delegatorOf (kevers bs) p = None \<Longrightarrow> unanchoredItem ((p, d), s) bs = Inl KeyError"
  by (auto simp: unanchoredItem_def delegatorOf_def getitem_def split: option.splits)

lemma unanchoredItem_skip:
  "delegatorOf (kevers bs) p \<noteq> None \<Longrightarrow> \<not> anchored (kevers bs) (kels bs) ((p, d), s)
     \<Longrightarrow> unanchoredItem ((p, d), s) bs = Inr bs"
  by (auto simp: unanchoredItem_def delegatorOf_def anchored_def anchorOf_def getitem_def
           split: option.splits)

lemma unanchoredItem_move:
  "anchored (kevers bs) (kels bs) ((p, d), s) \<Longrightarrow>
     \<exists>a. unanchoredItem ((p, d), s) bs =
       Inr (bs\<lparr>aess := a,
               witDoer_msgs := witDoer_msgs bs @ [\<lparr>cue_pre = p, cue_sn = serder_sn s\<rparr>],
               dpwe := pin (p, d) s (dpwe bs),
               dune := rem (p, d) (dune bs)\<rparr>)"
  by (auto simp: unanchoredItem_def delegatorOf_def anchored_def anchorOf_def getitem_def
           split: option.splits)

lemma unanchoredItem_step:
  "delegatorOf (kevers bs) (fst (fst item)) \<noteq> None \<Longrightarrow>
   unanchoredItem item bs =
     Inr (if anchored (kevers bs) (kels bs) item
          then bs\<lparr>aess := aesItem (kevers bs) (kels bs) item (aess bs),
                  witDoer_msgs := witDoer_msgs bs @ [requestOf item],
                  dpwe := pinItem item (dpwe bs),
                  dune := remItem item (dune bs)\<rparr>
          else bs)"
  by (cases item)
     (auto simp: unanchoredItem_def delegatorOf_def anchored_def anchorOf_def getitem_def
                 aesItem_def requestOf_def pinItem_def remItem_def
           split: option.splits)

lemma aesItem_skip: "\<not> anchored ks logs item \<Longrightarrow> aesItem ks logs item al = al"
  by (auto simp: aesItem_def anchored_def split: option.splits)

lemma forEach_unanchoredItem:
  "\<forall>item \<in> set items. delegatorOf (kevers bs) (fst (fst item)) \<noteq> None \<Longrightarrow>
   forEach unanchoredItem items bs =
     Inr (bs\<lparr>aess := fold (aesItem (kevers bs) (kels bs)) items (aess bs),
             witDoer_msgs := witDoer_msgs bs @
               map requestOf (filter (anchored (kevers bs) (kels bs)) items),
             dpwe := fold pinItem (filter (anchored (kevers bs) (kels bs)) items) (dpwe bs),
             dune := fold remItem (filter (anchored (kevers bs) (kels bs)) items) (dune bs)\<rparr>)"
proof (induction items arbitrary: bs)
  case Nil
  then show ?case by simp
next
  case (Cons item items)
  have known: "delegatorOf (kevers bs) (fst (fst item)) \<noteq> None"
    using Cons.prems by simp
  show ?case
  proof (cases "anchored (kevers bs) (kels bs) item")
    case True
    let ?bs1 = "bs\<lparr>aess := aesItem (kevers bs) (kels bs) item (aess bs),
                  witDoer_msgs := witDoer_msgs bs @ [requestOf item],
                  dpwe := pinItem item (dpwe bs),
                  dune := remItem item (dune bs)\<rparr>"
    have step: "unanchoredItem item bs = Inr ?bs1"
      using unanchoredItem_step [OF known] True by simp
    have "\<forall>i \<in> set items. delegatorOf (kevers ?bs1) (fst (fst i)) \<noteq> None"
      using Cons.prems by simp
    from Cons.IH [OF this] show ?thesis
      using step True by simp
  next
    case False
    have step: "unanchoredItem item bs = Inr bs"
      using unanchoredItem_step [OF known] False by simp
    have "\<forall>i \<in> set items. delegatorOf (kevers bs) (fst (fst i)) \<noteq> None"
      using Cons.prems by simp
    from Cons.IH [OF this] show ?thesis
      using step False by (simp add: aesItem_skip)
  qed
qed

lemma partialWitnessItem_step:
  "getKever (kevers bs) (fst (fst item)) \<noteq> None \<Longrightarrow>
   partialWitnessItem item bs =
     Inr (if receipted (kevers bs) (wigs bs) (witDoer_cues bs) item
          then bs\<lparr>dpwe := remItem item (dpwe bs), cdel := putItem item (cdel bs)\<rparr>
          else bs)"
  by (cases item)
     (auto simp: partialWitnessItem_def receipted_def getitem_def remItem_def putItem_def
                 completionKey_def Let_def
           split: option.splits)

lemma partialWitnessItem_error:
  "getKever (kevers bs) (fst (fst item)) = None \<Longrightarrow> partialWitnessItem item bs = Inl KeyError"
  by (cases item) (auto simp: partialWitnessItem_def getitem_def)

lemma forEach_partialWitnessItem:
  "\<forall>item \<in> set items. getKever (kevers bs) (fst (fst item)) \<noteq> None \<Longrightarrow>
   forEach partialWitnessItem items bs =
     Inr (bs\<lparr>dpwe := fold remItem
                      (filter (receipted (kevers bs) (wigs bs) (witDoer_cues bs)) items) (dpwe bs),
             cdel := fold putItem
                      (filter (receipted (kevers bs) (wigs bs) (witDoer_cues bs)) items) (cdel bs)\<rparr>)"
proof (induction items arbitrary: bs)
  case Nil
  then show ?case by simp
next
  case (Cons item items)
  have known: "getKever (kevers bs) (fst (fst item)) \<noteq> None"
    using Cons.prems by simp
  show ?case
  proof (cases "receipted (kevers bs) (wigs bs) (witDoer_cues bs) item")
    case True
    let ?bs1 = "bs\<lparr>dpwe := remItem item (dpwe bs), cdel := putItem item (cdel bs)\<rparr>"
    have step: "partialWitnessItem item bs = Inr ?bs1"
      using partialWitnessItem_step [OF known] True by simp
    have "\<forall>i \<in> set items. getKever (kevers ?bs1) (fst (fst i)) \<noteq> None"
      using Cons.prems by simp
    from Cons.IH [OF this] show ?thesis
      using step True by simp
  next
    case False
    have step: "partialWitnessItem item bs = Inr bs"
      using partialWitnessItem_step [OF known] False by simp
    have "\<forall>i \<in> set items. getKever (kevers bs) (fst (fst i)) \<noteq> None"
      using Cons.prems by simp
    from Cons.IH [OF this] show ?thesis
      using step False by simp
  qed
qed

subsection \<open>Folds of the store operations\<close>

lemma map_of_fold_remItem:
  "map_of (fold remItem xs al) k = (if k \<in> fst ` set xs then None else map_of al k)"
  by (induction xs arbitrary: al) (auto simp: remItem_def rem_def delete_conv')

lemma keys_fold_remItem:
  "fst ` set (fold remItem xs al) \<subseteq> fst ` set al"
proof (induction xs arbitrary: al)
  case Nil
  then show ?case by simp
next
  case (Cons x xs)
  have "fst ` set (fold remItem xs (remItem x al)) \<subseteq> fst ` set (remItem x al)"
    by (rule Cons.IH)
  also have "\<dots> \<subseteq> fst ` set al"
    by (simp add: remItem_def rem_def dom_delete_subset)
  finally show ?case by simp
qed


lemma map_of_fold_pinItem_out:
  "k \<notin> fst ` set xs \<Longrightarrow> map_of (fold pinItem xs al) k = map_of al k"
  by (induction xs arbitrary: al) (auto simp: pinItem_def pin_def update_conv')

lemma map_of_fold_pinItem_in:
  "distinct (map fst xs) \<Longrightarrow> (k, v) \<in> set xs \<Longrightarrow> map_of (fold pinItem xs al) k = Some v"
proof (induction xs arbitrary: al)
  case Nil
  then show ?case by simp
next
  case (Cons x xs)
  show ?case
  proof (cases "(k, v) \<in> set xs")
    case True
    then show ?thesis using Cons by simp
  next
    case False
    then have x: "x = (k, v)" using Cons.prems by simp
    then have "k \<notin> fst ` set xs" using Cons.prems by simp
    then have "map_of (fold pinItem xs (pinItem x al)) k = map_of (pinItem x al) k"
      by (rule map_of_fold_pinItem_out)
    also have "\<dots> = Some v"
      using x by (simp add: pinItem_def pin_def update_conv')
    finally show ?thesis by simp
  qed
qed

lemma keys_fold_pinItem:
  "fst ` set (fold pinItem xs al) = fst ` set xs \<union> fst ` set al"
  by (induction xs arbitrary: al) (auto simp: pinItem_def pin_def dom_update)

lemma distinct_fold_pinItem:
  "distinct (map fst al) \<Longrightarrow> distinct (map fst (fold pinItem xs al))"
  by (induction xs arbitrary: al) (auto simp: pinItem_def pin_def distinct_update)

lemma map_of_put:
  "map_of (put k v al) c =
     (case map_of al c of Some d \<Rightarrow> Some d | None \<Rightarrow> if c = k then Some v else None)"
  by (auto simp: put_def map_add_def split: option.splits)

lemma fold_putItem_keep:
  "map_of al c = Some d \<Longrightarrow> map_of (fold putItem xs al) c = Some d"
  by (induction xs arbitrary: al) (auto simp: putItem_def map_of_put)

lemma fold_putItem_out:
  "c \<notin> completionKey ` set xs \<Longrightarrow> map_of (fold putItem xs al) c = map_of al c"
  by (induction xs arbitrary: al) (auto simp: putItem_def map_of_put split: option.splits)

lemma fold_putItem_in:
  "item \<in> set xs \<Longrightarrow> map_of (fold putItem xs al) (completionKey item) \<noteq> None"
proof (induction xs arbitrary: al)
  case Nil
  then show ?case by simp
next
  case (Cons x xs)
  show ?case
  proof (cases "item \<in> set xs")
    case True
    then show ?thesis using Cons.IH by simp
  next
    case False
    then have "x = item" using Cons.prems by simp
    then have "\<exists>d. map_of (putItem x al) (completionKey item) = Some d"
      by (cases "map_of al (completionKey item)") (simp_all add: putItem_def map_of_put)
    then show ?thesis by (auto simp: fold_putItem_keep)
  qed
qed

lemma fold_putItem_origin:
  "map_of (fold putItem xs al) c = Some d \<Longrightarrow>
     map_of al c = Some d \<or> (\<exists>item \<in> set xs. completionKey item = c \<and> serder_said (snd item) = d)"
proof (induction xs arbitrary: al)
  case Nil
  then show ?case by simp
next
  case (Cons x xs)
  from Cons.prems have "map_of (fold putItem xs (putItem x al)) c = Some d" by simp
  from Cons.IH [OF this] show ?case
    by (auto simp: putItem_def map_of_put split: option.splits if_splits)
qed

subsection \<open>The scans in closed form\<close>

lemma delegatorOf_getKever: "delegatorOf ks p \<noteq> None \<Longrightarrow> getKever ks p \<noteq> None"
  by (auto simp: delegatorOf_def split: option.splits)

lemma processUnanchoredEscrow_eq:
  assumes "\<forall>item \<in> set (dune bs). delegatorOf (kevers bs) (fst (fst item)) \<noteq> None"
  shows "processUnanchoredEscrow bs =
     Inr (bs\<lparr>aess := fold (aesItem (kevers bs) (kels bs)) (dune bs) (aess bs),
             witDoer_msgs := witDoer_msgs bs @
               map requestOf (filter (anchored (kevers bs) (kels bs)) (dune bs)),
             dpwe := fold pinItem (filter (anchored (kevers bs) (kels bs)) (dune bs)) (dpwe bs),
             dune := fold remItem (filter (anchored (kevers bs) (kels bs)) (dune bs)) (dune bs)\<rparr>)"
  unfolding processUnanchoredEscrow_def getItemIter_def
  by (rule forEach_unanchoredItem [OF assms])

lemma processPartialWitnessEscrow_eq:
  assumes "\<forall>item \<in> set (dpwe bs). getKever (kevers bs) (fst (fst item)) \<noteq> None"
  shows "processPartialWitnessEscrow bs =
     Inr (bs\<lparr>dpwe := fold remItem
                      (filter (receipted (kevers bs) (wigs bs) (witDoer_cues bs)) (dpwe bs)) (dpwe bs),
             cdel := fold putItem
                      (filter (receipted (kevers bs) (wigs bs) (witDoer_cues bs)) (dpwe bs)) (cdel bs)\<rparr>)"
  unfolding processPartialWitnessEscrow_def getItemIter_def
  by (rule forEach_partialWitnessItem [OF assms])

text \<open>What the Unanchored scan does to the two escrow stores, key by key.\<close>

lemma unanchored_scan_stores:
  assumes res: "\<forall>item \<in> set (dune bs). delegatorOf (kevers bs) (fst (fst item)) \<noteq> None"
      and dist: "distinct (map fst (dune bs))"
      and item: "(k, s) \<in> set (dune bs)"
      and scan: "processUnanchoredEscrow bs = Inr bs'"
  shows "anchored (kevers bs) (kels bs) (k, s) \<Longrightarrow>
           map_of (dune bs') k = None \<and> map_of (dpwe bs') k = Some s"
    and "\<not> anchored (kevers bs) (kels bs) (k, s) \<Longrightarrow>
           map_of (dune bs') k = Some s \<and> map_of (dpwe bs') k = map_of (dpwe bs) k"
proof -
  let ?A = "anchored (kevers bs) (kels bs)"
  have dune': "dune bs' = fold remItem (filter ?A (dune bs)) (dune bs)"
   and dpwe': "dpwe bs' = fold pinItem (filter ?A (dune bs)) (dpwe bs)"
    using scan processUnanchoredEscrow_eq [OF res] by auto
  have only: "s' = s" if "(k, s') \<in> set (dune bs)" for s'
    using dist item that by (meson eq_key_imp_eq_value)
  have here: "map_of (dune bs) k = Some s"
    using dist item by simp
  have dfil: "distinct (map fst (filter ?A (dune bs)))"
    using dist by (simp add: distinct_map_filter)
  {
    assume a: "?A (k, s)"
    then have "(k, s) \<in> set (filter ?A (dune bs))" using item by simp
    then show "map_of (dune bs') k = None \<and> map_of (dpwe bs') k = Some s"
      using dfil by (force simp: dune' dpwe' map_of_fold_remItem map_of_fold_pinItem_in)
  }
  {
    assume a: "\<not> ?A (k, s)"
    have "k \<notin> fst ` set (filter ?A (dune bs))"
      using a only by auto
    then show "map_of (dune bs') k = Some s \<and> map_of (dpwe bs') k = map_of (dpwe bs) k"
      using here by (simp add: dune' dpwe' map_of_fold_remItem map_of_fold_pinItem_out)
  }
qed

subsection \<open>One tick and many\<close>

lemma processEscrows_eq:
  assumes res: "escrowsResolvable bs"
  defines "A \<equiv> anchored (kevers bs) (kels bs)"
      and "R \<equiv> receipted (kevers bs) (wigs bs) (witDoer_cues bs)"
  defines "moved \<equiv> fold pinItem (filter A (dune bs)) (dpwe bs)"
  shows "processEscrows bs =
     Inr (bs\<lparr>aess := fold (aesItem (kevers bs) (kels bs)) (dune bs) (aess bs),
             witDoer_msgs := witDoer_msgs bs @ map requestOf (filter A (dune bs)),
             dpwe := fold remItem (filter R moved) moved,
             dune := fold remItem (filter A (dune bs)) (dune bs),
             cdel := fold putItem (filter R moved) (cdel bs)\<rparr>)"
proof -
  let ?bs1 = "bs\<lparr>aess := fold (aesItem (kevers bs) (kels bs)) (dune bs) (aess bs),
             witDoer_msgs := witDoer_msgs bs @ map requestOf (filter A (dune bs)),
             dpwe := moved,
             dune := fold remItem (filter A (dune bs)) (dune bs)\<rparr>"
  have u: "\<forall>item \<in> set (dune bs). delegatorOf (kevers bs) (fst (fst item)) \<noteq> None"
    using res by (simp add: escrowsResolvable_def)
  have scan1: "processUnanchoredEscrow bs = Inr ?bs1"
    using processUnanchoredEscrow_eq [OF u] by (simp add: A_def moved_def)
  have known: "getKever (kevers bs) (fst (fst item)) \<noteq> None" if "item \<in> set moved" for item
  proof -
    have "fst item \<in> fst ` set moved" using that by simp
    then have "fst item \<in> fst ` set (filter A (dune bs)) \<union> fst ` set (dpwe bs)"
      by (simp add: moved_def keys_fold_pinItem)
    then have "\<exists>i. (i \<in> set (dune bs) \<or> i \<in> set (dpwe bs)) \<and> fst i = fst item"
      by force
    then obtain i where i: "i \<in> set (dune bs) \<or> i \<in> set (dpwe bs)" "fst i = fst item"
      by blast
    then show ?thesis
      using res delegatorOf_getKever [of "kevers bs" "fst (fst i)"]
      by (auto simp: escrowsResolvable_def)
  qed
  then have p: "\<forall>item \<in> set (dpwe ?bs1). getKever (kevers ?bs1) (fst (fst item)) \<noteq> None"
    by simp
  have scan2: "processPartialWitnessEscrow ?bs1 =
     Inr (?bs1\<lparr>dpwe := fold remItem (filter R moved) moved,
                 cdel := fold putItem (filter R moved) (cdel bs)\<rparr>)"
    unfolding processPartialWitnessEscrow_eq [OF p] by (simp add: R_def)
  show ?thesis
    unfolding processEscrows_def scan1 sum.case scan2 by simp
qed

lemma processEscrows_fields:
  assumes res: "escrowsResolvable bs" and tick: "processEscrows bs = Inr bs'"
  shows "kevers bs' = kevers bs" and "kels bs' = kels bs" and "wigs bs' = wigs bs"
    and "witDoer_cues bs' = witDoer_cues bs" and "habs bs' = habs bs"
    and "dune bs' = fold remItem (filter (anchored (kevers bs) (kels bs)) (dune bs)) (dune bs)"
    and "dpwe bs' =
           fold remItem
             (filter (receipted (kevers bs) (wigs bs) (witDoer_cues bs))
                (fold pinItem (filter (anchored (kevers bs) (kels bs)) (dune bs)) (dpwe bs)))
             (fold pinItem (filter (anchored (kevers bs) (kels bs)) (dune bs)) (dpwe bs))"
    and "cdel bs' =
           fold putItem
             (filter (receipted (kevers bs) (wigs bs) (witDoer_cues bs))
                (fold pinItem (filter (anchored (kevers bs) (kels bs)) (dune bs)) (dpwe bs)))
             (cdel bs)"
proof -
  let ?A = "anchored (kevers bs) (kels bs)"
  let ?R = "receipted (kevers bs) (wigs bs) (witDoer_cues bs)"
  let ?moved = "fold pinItem (filter ?A (dune bs)) (dpwe bs)"
  let ?new = "bs\<lparr>aess := fold (aesItem (kevers bs) (kels bs)) (dune bs) (aess bs),
             witDoer_msgs := witDoer_msgs bs @ map requestOf (filter ?A (dune bs)),
             dpwe := fold remItem (filter ?R ?moved) ?moved,
             dune := fold remItem (filter ?A (dune bs)) (dune bs),
             cdel := fold putItem (filter ?R ?moved) (cdel bs)\<rparr>"
  have "processEscrows bs = Inr ?new"
    by (rule processEscrows_eq [OF res])
  then have "Inr bs' = (Inr ?new :: error + boatswain)"
    using tick by (simp only:)
  then have bs': "bs' = ?new"
    by (simp only: sum.inject)
  show "kevers bs' = kevers bs" by (simp add: bs')
  show "kels bs' = kels bs" by (simp add: bs')
  show "wigs bs' = wigs bs" by (simp add: bs')
  show "witDoer_cues bs' = witDoer_cues bs" by (simp add: bs')
  show "habs bs' = habs bs" by (simp add: bs')
  show "dune bs' = fold remItem (filter ?A (dune bs)) (dune bs)" by (simp add: bs')
  show "dpwe bs' = fold remItem (filter ?R ?moved) ?moved" by (simp add: bs')
  show "cdel bs' = fold putItem (filter ?R ?moved) (cdel bs)" by (simp add: bs')
qed

lemma processEscrows_resolvable:
  assumes res: "escrowsResolvable bs" and tick: "processEscrows bs = Inr bs'"
  shows "escrowsResolvable bs'"
proof -
  let ?A = "anchored (kevers bs) (kels bs)"
  let ?R = "receipted (kevers bs) (wigs bs) (witDoer_cues bs)"
  let ?moved = "fold pinItem (filter ?A (dune bs)) (dpwe bs)"
  note eq = processEscrows_fields(1,6,7) [OF res tick]
  have known: "getKever (kevers bs) (fst k) \<noteq> None"
    if "k \<in> fst ` set (dune bs) \<union> fst ` set (dpwe bs)" for k
  proof -
    from that have "\<exists>i. (i \<in> set (dune bs) \<or> i \<in> set (dpwe bs)) \<and> fst i = k"
      by force
    then obtain i where i: "i \<in> set (dune bs) \<or> i \<in> set (dpwe bs)" "fst i = k"
      by blast
    then show ?thesis
      using res delegatorOf_getKever [of "kevers bs" "fst (fst i)"]
      by (auto simp: escrowsResolvable_def)
  qed
  have d: "delegatorOf (kevers bs) (fst (fst item)) \<noteq> None" if "item \<in> set (dune bs')" for item
  proof -
    have "fst item \<in> fst ` set (dune bs')" using that by simp
    then have "fst item \<in> fst ` set (dune bs)"
      unfolding eq by (rule subsetD [OF keys_fold_remItem])
    then obtain i where "i \<in> set (dune bs)" "fst i = fst item" by force
    then show ?thesis using res by (auto simp: escrowsResolvable_def)
  qed
  have p: "getKever (kevers bs) (fst (fst item)) \<noteq> None" if "item \<in> set (dpwe bs')" for item
  proof -
    have "fst item \<in> fst ` set (dpwe bs')" using that by simp
    then have "fst item \<in> fst ` set ?moved"
      unfolding eq by (rule subsetD [OF keys_fold_remItem])
    then have "fst item \<in> fst ` set (filter ?A (dune bs)) \<union> fst ` set (dpwe bs)"
      by (simp add: keys_fold_pinItem)
    then have "fst item \<in> fst ` set (dune bs) \<union> fst ` set (dpwe bs)"
      by auto
    then show ?thesis by (rule known)
  qed
  show ?thesis
    unfolding escrowsResolvable_def eq(1) using d p by (intro conjI ballI)
qed

lemma processEscrows_total:
  "escrowsResolvable bs \<Longrightarrow> \<exists>bs'. processEscrows bs = Inr bs'"
  using processEscrows_eq by blast

lemma ticks_total:
  "escrowsResolvable bs \<Longrightarrow> \<exists>bs'. ticks n bs = Inr bs'"
proof (induction n arbitrary: bs)
  case 0
  then show ?case by simp
next
  case (Suc n)
  from processEscrows_total [OF Suc.prems] obtain bs1 where t: "processEscrows bs = Inr bs1"
    by blast
  have "escrowsResolvable bs1"
    by (rule processEscrows_resolvable [OF Suc.prems t])
  from Suc.IH [OF this] show ?case by (simp add: t)
qed


lemma anchored_iff:
  assumes "delegatorOf ks p = Some dk"
  shows "anchored ks logs ((p, d), s) \<longleftrightarrow>
     (\<exists>e \<in> set (logs (kever_prefixer dk)).
        (serder_pre s, serder_sn s, serder_said s) \<in> set (serder_seals e))"
  using assms findAnchoringEvent_iff [of logs "kever_prefixer dk" "anchorOf s"]
  by (simp add: anchored_def anchorOf_def)


text \<open>The definitions of the example states, for evaluation.\<close>

lemmas example_defs = bsIdle_def bsDone_def bsUnanchored_def bsWaiting_def bsPartial_def
  bsReceipted_def bsCued_def bsMoved_def bsCompleted_def bsInitiated_def bsInception_def
  bsFresh_def bsOrphan_def bsAhead_def bsStale_def bsMisfiled_def srdrD2_def habD2_def
  exnD0_def exnD1_def evD1_def msgNoPre_def msgNoDelpre_def msgGroup_def
  msgForeign_def msgSingle_def noteGroup_def noteSingle_def handlerQ_def habD_def srdrD0_def
  srdrD1_def srdrP_def keverD_def keverP_def logsP_def


subsection \<open>Records under the PartiallyWitnessed scan\<close>

lemma receipted_iff:
  assumes "getKever ks p = Some kv"
  shows "receipted ks wg cues ((p, d), s) \<longleftrightarrow>
     length (wg (dgKey p (serder_said s))) = length (kever_wits kv) \<and>
     (0 < length (kever_wits kv) \<longrightarrow>
        (\<exists>c \<in> set cues. cue_pre c = serder_pre s \<and> cue_sn c = serder_sn s))"
  using assms by (auto simp: receipted_def witnessedLoop_iff)


text \<open>What the PartiallyWitnessed scan does to one record of a store \<open>items\<close>.\<close>

lemma promoted_record:
  assumes dist: "distinct (map fst items)" and item: "(k, s) \<in> set items" and r: "R (k, s)"
  shows "map_of (fold remItem (filter R items) items) k = None"
    and "\<exists>c. map_of (fold putItem (filter R items) al) (completionKey (k, s)) = Some c"
    and "map_of al (completionKey (k, s)) = None \<Longrightarrow>
         \<forall>i \<in> set items. completionKey i = completionKey (k, s) \<longrightarrow> i = (k, s) \<Longrightarrow>
         map_of (fold putItem (filter R items) al) (completionKey (k, s)) = Some (serder_said s)"
proof -
  have inR: "(k, s) \<in> set (filter R items)"
    using item r by simp
  then have "k \<in> fst ` set (filter R items)"
    by force
  then show "map_of (fold remItem (filter R items) items) k = None"
    by (simp add: map_of_fold_remItem)
  have "map_of (fold putItem (filter R items) al) (completionKey (k, s)) \<noteq> None"
    by (rule fold_putItem_in [OF inR])
  then show ex: "\<exists>c. map_of (fold putItem (filter R items) al) (completionKey (k, s)) = Some c"
    by simp
  {
    assume fresh: "map_of al (completionKey (k, s)) = None"
       and single: "\<forall>i \<in> set items. completionKey i = completionKey (k, s) \<longrightarrow> i = (k, s)"
    from ex obtain c where
      c: "map_of (fold putItem (filter R items) al) (completionKey (k, s)) = Some c" ..
    from fold_putItem_origin [OF c] fresh obtain i where
      i: "i \<in> set (filter R items)" "completionKey i = completionKey (k, s)"
         "serder_said (snd i) = c"
      by auto
    then have "i = (k, s)" using single by simp
    then have "c = serder_said s" using i(3) by simp
    then show "map_of (fold putItem (filter R items) al) (completionKey (k, s)) =
                 Some (serder_said s)"
      using c by simp
  }
qed

lemma waiting_record:
  assumes dist: "distinct (map fst items)" and item: "(k, s) \<in> set items" and r: "\<not> R (k, s)"
  shows "map_of (fold remItem (filter R items) items) k = Some s"
    and "\<forall>i \<in> set items. completionKey i = completionKey (k, s) \<longrightarrow> i = (k, s) \<Longrightarrow>
         map_of (fold putItem (filter R items) al) (completionKey (k, s)) =
           map_of al (completionKey (k, s))"
proof -
  have only: "s' = s" if "(k, s') \<in> set items" for s'
    using dist item that by (meson eq_key_imp_eq_value)
  have "k \<notin> fst ` set (filter R items)"
    using r only by auto
  then have "map_of (fold remItem (filter R items) items) k = map_of items k"
    by (simp add: map_of_fold_remItem)
  also have "\<dots> = Some s"
    using dist item by simp
  finally show "map_of (fold remItem (filter R items) items) k = Some s" .
  {
    assume single: "\<forall>i \<in> set items. completionKey i = completionKey (k, s) \<longrightarrow> i = (k, s)"
    have "completionKey (k, s) \<notin> completionKey ` set (filter R items)"
    proof
      assume "completionKey (k, s) \<in> completionKey ` set (filter R items)"
      then obtain i where "i \<in> set items" "R i" "completionKey i = completionKey (k, s)"
        by auto
      then show False using single r by auto
    qed
    then show "map_of (fold putItem (filter R items) al) (completionKey (k, s)) =
                 map_of al (completionKey (k, s))"
      by (rule fold_putItem_out)
  }
qed

lemma set_pin: "set (pin k v al) \<subseteq> insert (k, v) (set al)"
  unfolding pin_def by (induction al) auto

lemma set_fold_pinItem: "set (fold pinItem xs al) \<subseteq> set xs \<union> set al"
proof (induction xs arbitrary: al)
  case Nil
  then show ?case by simp
next
  case (Cons x xs)
  have "set (fold pinItem xs (pinItem x al)) \<subseteq> set xs \<union> set (pinItem x al)"
    by (rule Cons.IH)
  moreover have "set (pinItem x al) \<subseteq> insert x (set al)"
    using set_pin [of "fst x" "snd x" al] by (simp add: pinItem_def)
  ultimately show ?case by auto
qed

text \<open>
  One tick on a record of the Unanchored store whose seal is anchored: the first scan
  moves it, and the second scan of the same tick examines it where the first has put it.
\<close>

lemma tick_on_anchored_record:
  assumes res: "escrowsResolvable bs"
      and dist: "distinct (map fst (dune bs))" and dist2: "distinct (map fst (dpwe bs))"
      and item: "(k, s) \<in> set (dune bs)"
      and a: "anchored (kevers bs) (kels bs) (k, s)"
      and tick: "processEscrows bs = Inr bs'"
  shows "map_of (dune bs') k = None"
    and "receipted (kevers bs) (wigs bs) (witDoer_cues bs) (k, s) \<Longrightarrow>
           map_of (dpwe bs') k = None \<and>
           (\<exists>c. map_of (cdel bs') (completionKey (k, s)) = Some c)"
    and "receipted (kevers bs) (wigs bs) (witDoer_cues bs) (k, s) \<Longrightarrow>
           map_of (cdel bs) (completionKey (k, s)) = None \<Longrightarrow>
           \<forall>i \<in> set (dune bs) \<union> set (dpwe bs).
              completionKey i = completionKey (k, s) \<longrightarrow> i = (k, s) \<Longrightarrow>
           map_of (cdel bs') (completionKey (k, s)) = Some (serder_said s)"
    and "\<not> receipted (kevers bs) (wigs bs) (witDoer_cues bs) (k, s) \<Longrightarrow>
           map_of (dpwe bs') k = Some s"
proof -
  let ?A = "anchored (kevers bs) (kels bs)"
  let ?R = "receipted (kevers bs) (wigs bs) (witDoer_cues bs)"
  let ?moved = "fold pinItem (filter ?A (dune bs)) (dpwe bs)"
  note f = processEscrows_fields(6,7,8) [OF res tick]
  have inA: "(k, s) \<in> set (filter ?A (dune bs))"
    using item a by simp
  then have "k \<in> fst ` set (filter ?A (dune bs))"
    by force
  then show "map_of (dune bs') k = None"
    by (simp add: f map_of_fold_remItem)
  have dfil: "distinct (map fst (filter ?A (dune bs)))"
    using dist by (simp add: distinct_map_filter)
  have "map_of ?moved k = Some s"
    by (rule map_of_fold_pinItem_in [OF dfil inA])
  then have inM: "(k, s) \<in> set ?moved"
    by (rule map_of_SomeD)
  have dM: "distinct (map fst ?moved)"
    by (rule distinct_fold_pinItem [OF dist2])
  {
    assume r: "?R (k, s)"
    note pr = promoted_record [OF dM inM, of ?R, OF r]
    show "map_of (dpwe bs') k = None \<and>
           (\<exists>c. map_of (cdel bs') (completionKey (k, s)) = Some c)"
      using pr(1) pr(2) [of "cdel bs"] by (simp add: f)
    {
      assume fresh: "map_of (cdel bs) (completionKey (k, s)) = None"
         and single: "\<forall>i \<in> set (dune bs) \<union> set (dpwe bs).
              completionKey i = completionKey (k, s) \<longrightarrow> i = (k, s)"
      have "set ?moved \<subseteq> set (filter ?A (dune bs)) \<union> set (dpwe bs)"
        by (rule set_fold_pinItem)
      then have sub: "set ?moved \<subseteq> set (dune bs) \<union> set (dpwe bs)"
        by auto
      have single': "\<forall>i \<in> set ?moved. completionKey i = completionKey (k, s) \<longrightarrow> i = (k, s)"
        using single sub by blast
      show "map_of (cdel bs') (completionKey (k, s)) = Some (serder_said s)"
        using pr(3) [OF fresh single'] by (simp add: f)
    }
  }
  {
    assume r: "\<not> ?R (k, s)"
    show "map_of (dpwe bs') k = Some s"
      using waiting_record(1) [OF dM inM, of ?R, OF r] by (simp add: f)
  }
qed

lemma unanchored_scan_fields:
  assumes u: "\<forall>item \<in> set (dune bs). delegatorOf (kevers bs) (fst (fst item)) \<noteq> None"
      and scan: "processUnanchoredEscrow bs = Inr bs'"
  shows "dune bs' = fold remItem (filter (anchored (kevers bs) (kels bs)) (dune bs)) (dune bs)"
    and "dpwe bs' = fold pinItem (filter (anchored (kevers bs) (kels bs)) (dune bs)) (dpwe bs)"
    and "cdel bs' = cdel bs" and "kevers bs' = kevers bs"
proof -
  let ?A = "anchored (kevers bs) (kels bs)"
  let ?new = "bs\<lparr>aess := fold (aesItem (kevers bs) (kels bs)) (dune bs) (aess bs),
             witDoer_msgs := witDoer_msgs bs @ map requestOf (filter ?A (dune bs)),
             dpwe := fold pinItem (filter ?A (dune bs)) (dpwe bs),
             dune := fold remItem (filter ?A (dune bs)) (dune bs)\<rparr>"
  have "processUnanchoredEscrow bs = Inr ?new"
    by (rule processUnanchoredEscrow_eq [OF u])
  then have "Inr bs' = (Inr ?new :: error + boatswain)"
    using scan by (simp only:)
  then have bs': "bs' = ?new"
    by (simp only: sum.inject)
  show "dune bs' = fold remItem (filter ?A (dune bs)) (dune bs)" by (simp add: bs')
  show "dpwe bs' = fold pinItem (filter ?A (dune bs)) (dpwe bs)" by (simp add: bs')
  show "cdel bs' = cdel bs" by (simp add: bs')
  show "kevers bs' = kevers bs" by (simp add: bs')
qed

text \<open>The definitions of the scans, for evaluation on the example states.\<close>

lemmas scan_defs = processEscrows_def processUnanchoredEscrow_def processPartialWitnessEscrow_def
  unanchoredItem_def partialWitnessItem_def getItemIter_def getitem_def getKever_def
  findAnchoringEvent_def dgKey_def pin_def rem_def put_def get_def

lemma bsUnanchored_scan: "processUnanchoredEscrow bsUnanchored = Inr bsMoved"
  by (simp add: scan_defs example_defs)

lemma bsMoved_scan: "processPartialWitnessEscrow bsMoved = Inr bsCompleted"
  by (simp add: scan_defs example_defs)

subsection \<open>Initiation\<close>

lemma getHab_pre: "getHab hs p = Some h \<Longrightarrow> hab_pre h = p"
  by (auto simp: getHab_def find_Some_iff)

lemma makeOwnEvent_eq:
  "makeOwnEvent hab n =
     (case map_of (hab_events hab) n of
        None \<Rightarrow> Inl MissingEntryError
      | Some ev \<Rightarrow> Inr (ownSerder (hab_pre hab) n ev, Attached (own_sigs ev)))"
  by (simp add: makeOwnEvent_def ownSerder_def split: option.split)

lemma delegateRequestExn_eq:
  "delegateRequestExn hab delpre kd aids =
     (requestExn delpre kd aids, Endorsement hab (requestExn delpre kd aids))"
  by (cases aids) (simp_all add: delegateRequestExn_def requestExn_def resource_def Let_def)

lemma delegation_eq:
  assumes hab: "getHab (habs bs) p = Some hab" and kv: "getKever (kevers bs) p = Some kv"
  shows "delegation bs p sn proxy =
     (case kever_delegator kv of
        None \<Rightarrow> Inl UnknownDelegator
      | Some d \<Rightarrow>
     (case getKever (kevers bs) d of
        None \<Rightarrow> Inl UnknownDelegator
      | Some dk \<Rightarrow>
     (case map_of (hab_events hab) (case sn of None \<Rightarrow> kever_sn kv | Some n \<Rightarrow> n) of
        None \<Rightarrow> Inl MissingEntryError
      | Some ev \<Rightarrow>
     (case sendingHab hab kv proxy of
        Inl e \<Rightarrow> Inl e
      | Inr (phab, smids) \<Rightarrow>
          Inr (bs\<lparr>postman := postman bs @
                 [\<lparr>sent_hab = phab, sent_dest = d, sent_topic = ''delegate'',
                   sent_serder = ExnBody (requestExn d (own_ked ev) (Some smids)),
                   sent_attachment = Endorsement phab (requestExn d (own_ked ev) (Some smids))\<rparr>,
                  \<lparr>sent_hab = phab, sent_dest = d, sent_topic = ''delegate'',
                   sent_serder = EventBody
                     (ownSerder p (case sn of None \<Rightarrow> kever_sn kv | Some n \<Rightarrow> n) ev),
                   sent_attachment = Attached (own_sigs ev)\<rparr>],
               witq := witq bs @
                 [\<lparr>query_hab = phab, query_pre = d,
                   query_anchor =
                     (p, (case sn of None \<Rightarrow> kever_sn kv | Some n \<Rightarrow> n), own_said ev)\<rparr>],
               dune := pin (p, own_said ev)
                 (ownSerder p (case sn of None \<Rightarrow> kever_sn kv | Some n \<Rightarrow> n) ev)
                 (dune bs)\<rparr>)))))"
proof -
  have hp: "hab_pre hab = p" by (rule getHab_pre [OF hab])
  show ?thesis
    unfolding delegation_def hab option.case hp kv getitem_def sum.case makeOwnEvent_eq
              delegateRequestExn_eq
    by (auto split: option.splits sum.splits
             simp: hp ownSerder_def dest: getKever_prefixer)
qed

lemma delegation_Inr:
  assumes ok: "delegation bs p sn proxy = Inr bs'"
      and hab: "getHab (habs bs) p = Some hab" and kv: "getKever (kevers bs) p = Some kv"
  obtains d dk ev phab smids where
    "kever_delegator kv = Some d" and "getKever (kevers bs) d = Some dk"
    and "map_of (hab_events hab) (case sn of None \<Rightarrow> kever_sn kv | Some n \<Rightarrow> n) = Some ev"
    and "sendingHab hab kv proxy = Inr (phab, smids)"
    and "bs' = bs\<lparr>postman := postman bs @
                 [\<lparr>sent_hab = phab, sent_dest = d, sent_topic = ''delegate'',
                   sent_serder = ExnBody (requestExn d (own_ked ev) (Some smids)),
                   sent_attachment = Endorsement phab (requestExn d (own_ked ev) (Some smids))\<rparr>,
                  \<lparr>sent_hab = phab, sent_dest = d, sent_topic = ''delegate'',
                   sent_serder = EventBody
                     (ownSerder p (case sn of None \<Rightarrow> kever_sn kv | Some n \<Rightarrow> n) ev),
                   sent_attachment = Attached (own_sigs ev)\<rparr>],
               witq := witq bs @
                 [\<lparr>query_hab = phab, query_pre = d,
                   query_anchor =
                     (p, (case sn of None \<Rightarrow> kever_sn kv | Some n \<Rightarrow> n), own_said ev)\<rparr>],
               dune := pin (p, own_said ev)
                 (ownSerder p (case sn of None \<Rightarrow> kever_sn kv | Some n \<Rightarrow> n) ev)
                 (dune bs)\<rparr>"
proof -
  let ?n = "case sn of None \<Rightarrow> kever_sn kv | Some n \<Rightarrow> n"
  note eq = ok [unfolded delegation_eq [OF hab kv]]
  obtain d where d: "kever_delegator kv = Some d"
    using eq by (cases "kever_delegator kv") simp_all
  obtain dk where dk: "getKever (kevers bs) d = Some dk"
    using eq by (cases "getKever (kevers bs) d") (simp_all add: d)
  obtain ev where ev: "map_of (hab_events hab) ?n = Some ev"
    using eq by (cases "map_of (hab_events hab) ?n") (simp_all add: d dk)
  obtain phab smids where ph: "sendingHab hab kv proxy = Inr (phab, smids)"
    using eq by (cases "sendingHab hab kv proxy") (auto simp: d dk ev)
  show thesis
    using eq by (intro that [OF d dk ev ph]) (simp add: d dk ev ph)
qed

lemmas delegation_defs = delegation_def getHab_def getKever_def getitem_def makeOwnEvent_def
  sendingHab_def delegateRequestExn_def resource_def pin_def Let_def

lemma bsIdle_delegation: "delegation bsIdle ''D'' (Some 1) None = Inr bsInitiated"
  by (simp add: delegation_defs example_defs)


lemma delegation_no_kever:
  "getHab (habs bs) p = Some hab \<Longrightarrow> getKever (kevers bs) p = None \<Longrightarrow>
   delegation bs p sn proxy = Inl KeyError"
  by (simp add: delegation_def getitem_def getHab_pre)




subsection \<open>The request handler\<close>





subsection \<open>The authorizer seal\<close>

text \<open>
  The key under which the Unanchored scan files the authorizer seal of a record: the
  prefix of the identifier and the digest of the latest event of its key state.
\<close>

lemma unanchoredItem_aes_key:
  assumes kv: "getKever (kevers bs) p = Some kv"
      and a: "anchored (kevers bs) (kels bs) ((p, d), s)"
      and step: "unanchoredItem ((p, d), s) bs = Inr bs'"
  shows "\<exists>couple. aess bs' = pin (dgKey p (serder_said (kever_serder kv))) couple (aess bs)"
proof -
  have known: "delegatorOf (kevers bs) (fst (fst ((p, d), s))) \<noteq> None"
    using a by (auto simp: anchored_def split: option.splits)
  have "aess bs' = aesItem (kevers bs) (kels bs) ((p, d), s) (aess bs)"
    using step unanchoredItem_step [OF known] a by auto
  then show ?thesis
    using a getKever_prefixer [OF kv]
    by (auto simp: aesItem_def anchored_def kv split: option.splits)
qed

subsection \<open>The completion query\<close>

text \<open>
  C3. For every \<open>(pre, sn)\<close> the completion query returns false when the completion
  index holds no record for \<open>(pre, sn)\<close>; when a record exists and an expected digest
  is supplied, the query fails with \<open>InconsistentDelegation\<close> exactly when the stored
  digest differs from the expected one; in every other case where the record exists,
  also when no expected digest is supplied, it returns true.
\<close>

theorem complete_cases:
  "(get (cdel bs) (p, n) = None \<longrightarrow> complete bs p n saider = Inr False) \<and>
   (\<forall>c. get (cdel bs) (p, n) = Some c \<longrightarrow>
      (complete bs p n saider = Inl InconsistentDelegation
         \<longleftrightarrow> (\<exists>sd. saider = Some sd \<and> c \<noteq> sd)) \<and>
      (complete bs p n saider \<noteq> Inl InconsistentDelegation
         \<longrightarrow> complete bs p n saider = Inr True) \<and>
      complete bs p n None = Inr True)"
  by (auto simp: complete_def split: option.splits)

theorem complete_cases_witness:
  "get (cdel bsDone) (''D'', 1) = Some ''E1'' \<and>
   complete bsDone ''D'' 1 (Some ''E2'') = Inl InconsistentDelegation \<and>
   complete bsDone ''D'' 1 (Some ''E1'') = Inr True \<and>
   complete bsDone ''D'' 1 None = Inr True \<and>
   get (cdel bsDone) (''D'', 0) = None \<and>
   complete bsDone ''D'' 0 (Some ''E1'') = Inr False"
  using complete_cases [of bsDone "''D''" 1 "Some ''E2''"]
        complete_cases [of bsDone "''D''" 1 "Some ''E1''"]
        complete_cases [of bsDone "''D''" 0 "Some ''E1''"]
  by (simp add: bsDone_def bsIdle_def get_def)

subsection \<open>The Unanchored scan\<close>



subsection \<open>The PartiallyWitnessed scan\<close>



subsection \<open>The two scans of one tick\<close>

text \<open>
  C4, as amended. In every tick the Unanchored scan runs first and the PartiallyWitnessed
  scan second, and each scan moves a record by one stage only: the first never writes the
  completion index, the second never touches the Unanchored store. A record that the
  first scan moves from Unanchored to PartiallyWitnessed is examined by the second scan
  of the same tick: it is promoted to Completed within that tick exactly when its
  witness condition holds then, and otherwise it stays PartiallyWitnessed.
\<close>

theorem tick_promotes_anchored_record:
  assumes res: "escrowsResolvable bs"
      and dist: "distinct (map fst (dune bs))" and dist2: "distinct (map fst (dpwe bs))"
      and item: "((p, d), s) \<in> set (dune bs)"
      and own: "serder_pre s = p \<and> serder_said s = d"
      and dk: "delegatorOf (kevers bs) p = Some dk"
      and kv: "getKever (kevers bs) p = Some kv"
      and sealed: "\<exists>e \<in> set (kels bs (kever_prefixer dk)).
                     (p, serder_sn s, d) \<in> set (serder_seals e)"
  shows "\<exists>bs1 bs2.
     processUnanchoredEscrow bs = Inr bs1 \<and> processPartialWitnessEscrow bs1 = Inr bs2 \<and>
     processEscrows bs = Inr bs2 \<and>
     get (dune bs1) (p, d) = None \<and> get (dpwe bs1) (p, d) = Some s \<and> cdel bs1 = cdel bs \<and>
     dune bs2 = dune bs1 \<and>
     (if length (wigs bs (dgKey p d)) = length (kever_wits kv) \<and>
         (0 < length (kever_wits kv) \<longrightarrow>
            (\<exists>c \<in> set (witDoer_cues bs). cue_pre c = p \<and> cue_sn c = serder_sn s))
      then get (dpwe bs2) (p, d) = None \<and> (\<exists>c. get (cdel bs2) (p, serder_sn s) = Some c)
      else get (dpwe bs2) (p, d) = Some s)"
proof -
  let ?R = "receipted (kevers bs) (wigs bs) (witDoer_cues bs)"
  let ?cond = "length (wigs bs (dgKey p d)) = length (kever_wits kv) \<and>
         (0 < length (kever_wits kv) \<longrightarrow>
            (\<exists>c \<in> set (witDoer_cues bs). cue_pre c = p \<and> cue_sn c = serder_sn s))"
  have a: "anchored (kevers bs) (kels bs) ((p, d), s)"
    using anchored_iff [OF dk, of "kels bs" d s] own sealed by simp
  have r: "?R ((p, d), s) \<longleftrightarrow> ?cond"
    using receipted_iff [OF kv, of "wigs bs" "witDoer_cues bs" d s] own by simp
  have ck: "completionKey ((p, d), s) = (p, serder_sn s)"
    by (simp add: completionKey_def)
  have u: "\<forall>item \<in> set (dune bs). delegatorOf (kevers bs) (fst (fst item)) \<noteq> None"
    using res by (simp add: escrowsResolvable_def)
  obtain bs1 where scan1: "processUnanchoredEscrow bs = Inr bs1"
    by (rule that [OF processUnanchoredEscrow_eq [OF u]])
  obtain bs2 where tick: "processEscrows bs = Inr bs2"
    by (rule that [OF processEscrows_eq [OF res]])
  have scan2: "processPartialWitnessEscrow bs1 = Inr bs2"
    using tick by (simp add: processEscrows_def scan1)
  note f1 = unanchored_scan_fields [OF u scan1]
  note f2 = processEscrows_fields(6) [OF res tick]
  note st = unanchored_scan_stores(1) [OF u dist item scan1 a]
  note t = tick_on_anchored_record [OF res dist dist2 item a tick]
  have last: "if ?cond
      then get (dpwe bs2) (p, d) = None \<and> (\<exists>c. get (cdel bs2) (p, serder_sn s) = Some c)
      else get (dpwe bs2) (p, d) = Some s"
  proof (cases ?cond)
    case True
    then have "?R ((p, d), s)" using r by simp
    from t(2) [OF this] show ?thesis using True by (simp add: get_def ck)
  next
    case False
    then have "\<not> ?R ((p, d), s)" using r by simp
    from t(4) [OF this] show ?thesis using False by (simp add: get_def)
  qed
  show ?thesis
  proof (rule exI [of _ bs1], rule exI [of _ bs2], intro conjI)
    show "processUnanchoredEscrow bs = Inr bs1" by (rule scan1)
    show "processPartialWitnessEscrow bs1 = Inr bs2" by (rule scan2)
    show "processEscrows bs = Inr bs2" by (rule tick)
    show "get (dune bs1) (p, d) = None" using st by (simp add: get_def)
    show "get (dpwe bs1) (p, d) = Some s" using st by (simp add: get_def)
    show "cdel bs1 = cdel bs" by (rule f1(3))
    show "dune bs2 = dune bs1" by (simp add: f1(1) f2)
    show "if ?cond
      then get (dpwe bs2) (p, d) = None \<and> (\<exists>c. get (cdel bs2) (p, serder_sn s) = Some c)
      else get (dpwe bs2) (p, d) = Some s"
      by (rule last)
  qed
qed

theorem promoted_twice_in_one_tick:
  "get (dune bsUnanchored) (''D'', ''E1'') = Some srdrD1 \<and>
   get (dpwe bsUnanchored) (''D'', ''E1'') = None \<and>
   get (cdel bsUnanchored) (''D'', 1) = None \<and>
   processUnanchoredEscrow bsUnanchored = Inr bsMoved \<and>
   get (dune bsMoved) (''D'', ''E1'') = None \<and>
   get (dpwe bsMoved) (''D'', ''E1'') = Some srdrD1 \<and>
   get (cdel bsMoved) (''D'', 1) = None \<and>
   processPartialWitnessEscrow bsMoved = Inr bsCompleted \<and>
   processEscrows bsUnanchored = Inr bsCompleted \<and>
   get (dpwe bsCompleted) (''D'', ''E1'') = None \<and>
   get (cdel bsCompleted) (''D'', 1) = Some ''E1''"
proof -
  have "processEscrows bsUnanchored = Inr bsCompleted"
    by (simp add: processEscrows_def bsUnanchored_scan bsMoved_scan)
  moreover have "get (dune bsUnanchored) (''D'', ''E1'') = Some srdrD1 \<and>
   get (dpwe bsUnanchored) (''D'', ''E1'') = None \<and>
   get (cdel bsUnanchored) (''D'', 1) = None \<and>
   get (dune bsMoved) (''D'', ''E1'') = None \<and>
   get (dpwe bsMoved) (''D'', ''E1'') = Some srdrD1 \<and>
   get (cdel bsMoved) (''D'', 1) = None \<and>
   get (dpwe bsCompleted) (''D'', ''E1'') = None \<and>
   get (cdel bsCompleted) (''D'', 1) = Some ''E1''"
    by (simp add: get_def example_defs)
  ultimately show ?thesis
    using bsUnanchored_scan bsMoved_scan by simp
qed

theorem tick_promotes_anchored_record_witness:
  "escrowsResolvable bsUnanchored \<and>
   ((''D'', ''E1''), srdrD1) \<in> set (dune bsUnanchored) \<and>
   delegatorOf (kevers bsUnanchored) ''D'' = Some keverP \<and>
   getKever (kevers bsUnanchored) ''D'' = Some keverD \<and>
   (\<exists>bs1 bs2. processUnanchoredEscrow bsUnanchored = Inr bs1 \<and>
      processPartialWitnessEscrow bs1 = Inr bs2 \<and> processEscrows bsUnanchored = Inr bs2 \<and>
      get (dpwe bs1) (''D'', ''E1'') = Some srdrD1 \<and>
      get (dpwe bs2) (''D'', ''E1'') = None \<and>
      (\<exists>c. get (cdel bs2) (''D'', 1) = Some c))"
proof -
  let ?key = "(''D'', ''E1'')"
  have r: "escrowsResolvable bsUnanchored"
    by (simp add: escrowsResolvable_def delegatorOf_def getKever_def example_defs)
  have ds: "distinct (map fst (dune bsUnanchored))"
    by (simp add: example_defs)
  have ds2: "distinct (map fst (dpwe bsUnanchored))"
    by (simp add: example_defs)
  have i: "(?key, srdrD1) \<in> set (dune bsUnanchored)"
    by (simp add: example_defs)
  have o: "serder_pre srdrD1 = ''D'' \<and> serder_said srdrD1 = ''E1''"
    by (simp add: example_defs)
  have n: "serder_sn srdrD1 = 1"
    by (simp add: example_defs)
  have k: "delegatorOf (kevers bsUnanchored) ''D'' = Some keverP"
    by (simp add: delegatorOf_def getKever_def example_defs)
  have v: "getKever (kevers bsUnanchored) ''D'' = Some keverD"
    by (simp add: getKever_def example_defs)
  have sealed: "\<exists>e \<in> set (kels bsUnanchored (kever_prefixer keverP)).
                  (''D'', serder_sn srdrD1, ''E1'') \<in> set (serder_seals e)"
    by (simp add: example_defs)
  have ready: "length (wigs bsUnanchored (dgKey ''D'' ''E1'')) = length (kever_wits keverD) \<and>
       (0 < length (kever_wits keverD) \<longrightarrow>
          (\<exists>c \<in> set (witDoer_cues bsUnanchored).
             cue_pre c = ''D'' \<and> cue_sn c = serder_sn srdrD1))"
    by (simp add: example_defs)
  from tick_promotes_anchored_record [OF r ds ds2 i o k v sealed] obtain bs1 bs2 where
    s1: "processUnanchoredEscrow bsUnanchored = Inr bs1"
    and s2: "processPartialWitnessEscrow bs1 = Inr bs2"
    and t: "processEscrows bsUnanchored = Inr bs2"
    and m: "get (dpwe bs1) ?key = Some srdrD1"
    and c: "if length (wigs bsUnanchored (dgKey ''D'' ''E1'')) = length (kever_wits keverD) \<and>
         (0 < length (kever_wits keverD) \<longrightarrow>
            (\<exists>c \<in> set (witDoer_cues bsUnanchored).
               cue_pre c = ''D'' \<and> cue_sn c = serder_sn srdrD1))
      then get (dpwe bs2) ?key = None \<and>
           (\<exists>c. get (cdel bs2) (''D'', serder_sn srdrD1) = Some c)
      else get (dpwe bs2) ?key = Some srdrD1"
    by (elim exE conjE)
  have c': "get (dpwe bs2) ?key = None \<and>
           (\<exists>c. get (cdel bs2) (''D'', serder_sn srdrD1) = Some c)"
    using c unfolding if_P [OF ready] .
  have both: "\<exists>bs1 bs2. processUnanchoredEscrow bsUnanchored = Inr bs1 \<and>
      processPartialWitnessEscrow bs1 = Inr bs2 \<and> processEscrows bsUnanchored = Inr bs2 \<and>
      get (dpwe bs1) ?key = Some srdrD1 \<and>
      get (dpwe bs2) ?key = None \<and>
      (\<exists>c. get (cdel bs2) (''D'', 1) = Some c)"
    using s1 s2 t m c' unfolding n
    by (intro exI [of _ bs2] exI [of _ bs1] conjI) simp_all
  show ?thesis
    by (intro conjI r i k v both)
qed

subsection \<open>Initiation\<close>

text \<open>
  C7. For a locally held identifier \<open>pre\<close> with its key state, a successful
  \<^verbatim>\<open>delegation(pre, sn, proxy)\<close> (so the delegator is known) inserts exactly one record
  into the Unanchored store, at the key \<open>(pre, said)\<close> of the own event at the sequence
  number, and leaves every other key as it was; it issues exactly one query, for the
  delegator's prefix and the seal \<open>(pre, sn, said)\<close>; and it sends exactly two messages
  to the delegator under the topic \<open>delegate\<close>: the request built by
  \<^verbatim>\<open>delegateRequestExn\<close> with its endorsement, then the event with its signatures.
\<close>

theorem delegation_effects:
  assumes ok: "delegation bs p sn proxy = Inr bs'"
      and hab: "getHab (habs bs) p = Some hab" and kv: "getKever (kevers bs) p = Some kv"
  defines "n \<equiv> case sn of None \<Rightarrow> kever_sn kv | Some m \<Rightarrow> m"
  shows "\<exists>d ev phab smids.
     kever_delegator kv = Some d \<and> (\<exists>dk. getKever (kevers bs) d = Some dk) \<and>
     map_of (hab_events hab) n = Some ev \<and> sendingHab hab kv proxy = Inr (phab, smids) \<and>
     (\<forall>k. get (dune bs') k =
        (if k = (p, own_said ev) then Some (ownSerder p n ev) else get (dune bs) k)) \<and>
     witq bs' = witq bs @
       [\<lparr>query_hab = phab, query_pre = d, query_anchor = (p, n, own_said ev)\<rparr>] \<and>
     postman bs' = postman bs @
       [\<lparr>sent_hab = phab, sent_dest = d, sent_topic = ''delegate'',
         sent_serder = ExnBody (fst (delegateRequestExn phab d (own_ked ev) (Some smids))),
         sent_attachment = snd (delegateRequestExn phab d (own_ked ev) (Some smids))\<rparr>,
        \<lparr>sent_hab = phab, sent_dest = d, sent_topic = ''delegate'',
         sent_serder = EventBody (ownSerder p n ev),
         sent_attachment = Attached (own_sigs ev)\<rparr>] \<and>
     dpwe bs' = dpwe bs \<and> cdel bs' = cdel bs"
proof -
  obtain d dk ev phab smids where
    d: "kever_delegator kv = Some d" and dk: "getKever (kevers bs) d = Some dk"
    and ev: "map_of (hab_events hab) n = Some ev"
    and ph: "sendingHab hab kv proxy = Inr (phab, smids)"
    and bs': "bs' = bs\<lparr>postman := postman bs @
                 [\<lparr>sent_hab = phab, sent_dest = d, sent_topic = ''delegate'',
                   sent_serder = ExnBody (requestExn d (own_ked ev) (Some smids)),
                   sent_attachment = Endorsement phab (requestExn d (own_ked ev) (Some smids))\<rparr>,
                  \<lparr>sent_hab = phab, sent_dest = d, sent_topic = ''delegate'',
                   sent_serder = EventBody (ownSerder p n ev),
                   sent_attachment = Attached (own_sigs ev)\<rparr>],
               witq := witq bs @
                 [\<lparr>query_hab = phab, query_pre = d, query_anchor = (p, n, own_said ev)\<rparr>],
               dune := pin (p, own_said ev) (ownSerder p n ev) (dune bs)\<rparr>"
    unfolding n_def by (rule delegation_Inr [OF ok hab kv])
  have dune': "\<forall>k. get (dune bs') k =
        (if k = (p, own_said ev) then Some (ownSerder p n ev) else get (dune bs) k)"
    by (simp add: bs' get_def pin_def update_conv')
  show ?thesis
  proof (rule exI [of _ d], rule exI [of _ ev], rule exI [of _ phab], rule exI [of _ smids],
         intro conjI)
    show "kever_delegator kv = Some d" by (rule d)
    show "\<exists>dk. getKever (kevers bs) d = Some dk" using dk by (rule exI)
    show "map_of (hab_events hab) n = Some ev" by (rule ev)
    show "sendingHab hab kv proxy = Inr (phab, smids)" by (rule ph)
    show "\<forall>k. get (dune bs') k =
        (if k = (p, own_said ev) then Some (ownSerder p n ev) else get (dune bs) k)"
      by (rule dune')
    show "witq bs' = witq bs @
       [\<lparr>query_hab = phab, query_pre = d, query_anchor = (p, n, own_said ev)\<rparr>]"
      by (simp add: bs')
    show "postman bs' = postman bs @
       [\<lparr>sent_hab = phab, sent_dest = d, sent_topic = ''delegate'',
         sent_serder = ExnBody (fst (delegateRequestExn phab d (own_ked ev) (Some smids))),
         sent_attachment = snd (delegateRequestExn phab d (own_ked ev) (Some smids))\<rparr>,
        \<lparr>sent_hab = phab, sent_dest = d, sent_topic = ''delegate'',
         sent_serder = EventBody (ownSerder p n ev),
         sent_attachment = Attached (own_sigs ev)\<rparr>]"
      by (simp add: bs' delegateRequestExn_eq)
    show "dpwe bs' = dpwe bs" by (simp add: bs')
    show "cdel bs' = cdel bs" by (simp add: bs')
  qed
qed

theorem delegation_effects_witness:
  "delegation bsIdle ''D'' (Some 1) None = Inr bsInitiated \<and>
   getHab (habs bsIdle) ''D'' = Some habD \<and>
   getKever (kevers bsIdle) ''D'' = Some keverD \<and>
   (\<exists>d ev phab smids.
     kever_delegator keverD = Some d \<and> (\<exists>dk. getKever (kevers bsIdle) d = Some dk) \<and>
     map_of (hab_events habD) 1 = Some ev \<and> sendingHab habD keverD None = Inr (phab, smids) \<and>
     (\<forall>k. get (dune bsInitiated) k =
        (if k = (''D'', own_said ev) then Some (ownSerder ''D'' 1 ev)
         else get (dune bsIdle) k)) \<and>
     witq bsInitiated = witq bsIdle @
       [\<lparr>query_hab = phab, query_pre = d, query_anchor = (''D'', 1, own_said ev)\<rparr>] \<and>
     postman bsInitiated = postman bsIdle @
       [\<lparr>sent_hab = phab, sent_dest = d, sent_topic = ''delegate'',
         sent_serder = ExnBody (fst (delegateRequestExn phab d (own_ked ev) (Some smids))),
         sent_attachment = snd (delegateRequestExn phab d (own_ked ev) (Some smids))\<rparr>,
        \<lparr>sent_hab = phab, sent_dest = d, sent_topic = ''delegate'',
         sent_serder = EventBody (ownSerder ''D'' 1 ev),
         sent_attachment = Attached (own_sigs ev)\<rparr>] \<and>
     dpwe bsInitiated = dpwe bsIdle \<and> cdel bsInitiated = cdel bsIdle)"
proof -
  have h: "getHab (habs bsIdle) ''D'' = Some habD"
    by (simp add: getHab_def example_defs)
  have k: "getKever (kevers bsIdle) ''D'' = Some keverD"
    by (simp add: getKever_def example_defs)
  note inst = delegation_effects [OF bsIdle_delegation h k]
  show ?thesis
    using inst by (intro conjI bsIdle_delegation h k) (simp only: option.case)
qed

text \<open>
  C10. For every locally held identifier that is not a group, a successful
  \<^verbatim>\<open>delegation\<close> sends as its first message a request whose payload holds the key
  \<open>aids\<close>, bound to the empty list. The payload that \<^verbatim>\<open>delegateRequestExn\<close> builds
  holds \<open>aids\<close> exactly as it is passed, so the key is absent only when the helper is
  called with \<^verbatim>\<open>aids=None\<close>.
\<close>

theorem single_signer_request_has_empty_aids:
  assumes ok: "delegation bs p sn proxy = Inr bs'"
      and hab: "getHab (habs bs) p = Some (Hab q evs)"
  shows "(\<exists>m1 m2 ex. postman bs' = postman bs @ [m1, m2] \<and> sent_serder m1 = ExnBody ex \<and>
            pay_aids (exn_payload ex) = Some []) \<and>
         (\<forall>h d kd a. pay_aids (exn_payload (fst (delegateRequestExn h d kd a))) = a)"
proof
  obtain kv where kv: "getKever (kevers bs) p = Some kv"
    using ok delegation_no_kever [OF hab, of sn proxy]
    by (cases "getKever (kevers bs) p") simp_all
  obtain d dk ev phab smids where
    "kever_delegator kv = Some d" and "getKever (kevers bs) d = Some dk"
    and "map_of (hab_events (Hab q evs)) (case sn of None \<Rightarrow> kever_sn kv | Some n \<Rightarrow> n) = Some ev"
    and ph: "sendingHab (Hab q evs) kv proxy = Inr (phab, smids)"
    and bs': "bs' = bs\<lparr>postman := postman bs @
                 [\<lparr>sent_hab = phab, sent_dest = d, sent_topic = ''delegate'',
                   sent_serder = ExnBody (requestExn d (own_ked ev) (Some smids)),
                   sent_attachment = Endorsement phab (requestExn d (own_ked ev) (Some smids))\<rparr>,
                  \<lparr>sent_hab = phab, sent_dest = d, sent_topic = ''delegate'',
                   sent_serder = EventBody
                     (ownSerder p (case sn of None \<Rightarrow> kever_sn kv | Some n \<Rightarrow> n) ev),
                   sent_attachment = Attached (own_sigs ev)\<rparr>],
               witq := witq bs @
                 [\<lparr>query_hab = phab, query_pre = d,
                   query_anchor =
                     (p, (case sn of None \<Rightarrow> kever_sn kv | Some n \<Rightarrow> n), own_said ev)\<rparr>],
               dune := pin (p, own_said ev)
                 (ownSerder p (case sn of None \<Rightarrow> kever_sn kv | Some n \<Rightarrow> n) ev)
                 (dune bs)\<rparr>"
    by (rule delegation_Inr [OF ok hab kv])
  have smids: "smids = []"
    using ph by (auto simp: sendingHab_def split: if_splits option.splits)
  let ?m1 = "\<lparr>sent_hab = phab, sent_dest = d, sent_topic = ''delegate'',
                   sent_serder = ExnBody (requestExn d (own_ked ev) (Some [])),
                   sent_attachment = Endorsement phab (requestExn d (own_ked ev) (Some []))\<rparr>"
  let ?m2 = "\<lparr>sent_hab = phab, sent_dest = d, sent_topic = ''delegate'',
                   sent_serder = EventBody
                     (ownSerder p (case sn of None \<Rightarrow> kever_sn kv | Some n \<Rightarrow> n) ev),
                   sent_attachment = Attached (own_sigs ev)\<rparr>"
  have "postman bs' = postman bs @ [?m1, ?m2] \<and>
        sent_serder ?m1 = ExnBody (requestExn d (own_ked ev) (Some [])) \<and>
        pay_aids (exn_payload (requestExn d (own_ked ev) (Some []))) = Some []"
    by (simp add: bs' smids requestExn_def)
  then show "\<exists>m1 m2 ex. postman bs' = postman bs @ [m1, m2] \<and> sent_serder m1 = ExnBody ex \<and>
            pay_aids (exn_payload ex) = Some []"
    by (intro exI)
next
  show "\<forall>h d kd a. pay_aids (exn_payload (fst (delegateRequestExn h d kd a))) = a"
    by (simp add: delegateRequestExn_eq requestExn_def)
qed

theorem single_signer_request_has_empty_aids_witness:
  "delegation bsIdle ''D'' (Some 1) None = Inr bsInitiated \<and>
   getHab (habs bsIdle) ''D'' = Some (Hab ''D'' (hab_events habD)) \<and>
   (\<exists>m1 m2 ex. postman bsInitiated = postman bsIdle @ [m1, m2] \<and> sent_serder m1 = ExnBody ex \<and>
            pay_aids (exn_payload ex) = Some []) \<and>
   pay_aids (exn_payload (fst (delegateRequestExn habD ''P'' [] None))) = None"
proof -
  have h: "getHab (habs bsIdle) ''D'' = Some (Hab ''D'' (hab_events habD))"
    by (simp add: getHab_def example_defs)
  note inst = single_signer_request_has_empty_aids [OF bsIdle_delegation h]
  show ?thesis
    using inst by (intro conjI bsIdle_delegation h) simp_all
qed




subsection \<open>Initiation followed by one tick\<close>

text \<open>
  C5. Let \<open>D\<close> be a local identifier without witnesses (and without stored witness
  signatures for the event) whose delegator is \<open>P\<close>, and let \<^verbatim>\<open>delegation(D, sn=1)\<close>
  have inserted the Unanchored record of the event \<open>(D, 1, said)\<close>. If the log of \<open>P\<close>
  already holds an event with the seal \<open>(D, 1, said)\<close>, one tick moves the record all the
  way: after the tick it is in neither escrow store, the completion index holds
  \<open>(D, 1) \<rightarrow> said\<close>, and the completion query answers true. The state before the
  initiation is one whose escrowed identifiers resolve, whose stores have unique keys,
  and which holds no completion record and no other escrowed event for \<open>(D, 1)\<close>.
\<close>

theorem zero_witness_delegation_completes_in_one_tick:
  assumes init: "delegation bs D (Some 1) proxy = Inr bs1"
      and hab: "getHab (habs bs) D = Some hab" and ev: "map_of (hab_events hab) 1 = Some ev"
      and kv: "getKever (kevers bs) D = Some kv" and del: "kever_delegator kv = Some P"
      and nowits: "kever_wits kv = []"
      and sealed: "\<exists>e \<in> set (kels bs P). (D, 1, own_said ev) \<in> set (serder_seals e)"
      and nosigs: "wigs bs (dgKey D (own_said ev)) = []"
      and res: "escrowsResolvable bs"
      and dist: "distinct (map fst (dune bs)) \<and> distinct (map fst (dpwe bs))"
      and fresh: "get (cdel bs) (D, 1) = None"
      and single: "\<forall>i \<in> set (dune bs) \<union> set (dpwe bs).
                     completionKey i = (D, 1) \<longrightarrow> i = ((D, own_said ev), ownSerder D 1 ev)"
  shows "\<exists>bs2. processEscrows bs1 = Inr bs2 \<and>
           get (dune bs2) (D, own_said ev) = None \<and>
           get (dpwe bs2) (D, own_said ev) = None \<and>
           get (cdel bs2) (D, 1) = Some (own_said ev) \<and>
           complete bs2 D 1 (Some (own_said ev)) = Inr True"
proof -
  let ?k = "(D, own_said ev)"
  let ?s = "ownSerder D 1 ev"
  obtain d dk ev' phab smids where
    d: "kever_delegator kv = Some d" and dk: "getKever (kevers bs) d = Some dk"
    and ev': "map_of (hab_events hab) (case Some 1 of None \<Rightarrow> kever_sn kv | Some n \<Rightarrow> n) = Some ev'"
    and "sendingHab hab kv proxy = Inr (phab, smids)"
    and bs1: "bs1 = bs\<lparr>postman := postman bs @
                 [\<lparr>sent_hab = phab, sent_dest = d, sent_topic = ''delegate'',
                   sent_serder = ExnBody (requestExn d (own_ked ev') (Some smids)),
                   sent_attachment = Endorsement phab (requestExn d (own_ked ev') (Some smids))\<rparr>,
                  \<lparr>sent_hab = phab, sent_dest = d, sent_topic = ''delegate'',
                   sent_serder = EventBody
                     (ownSerder D (case Some 1 of None \<Rightarrow> kever_sn kv | Some n \<Rightarrow> n) ev'),
                   sent_attachment = Attached (own_sigs ev')\<rparr>],
               witq := witq bs @
                 [\<lparr>query_hab = phab, query_pre = d,
                   query_anchor =
                     (D, (case Some 1 of None \<Rightarrow> kever_sn kv | Some n \<Rightarrow> n), own_said ev')\<rparr>],
               dune := pin (D, own_said ev')
                 (ownSerder D (case Some 1 of None \<Rightarrow> kever_sn kv | Some n \<Rightarrow> n) ev')
                 (dune bs)\<rparr>"
    by (rule delegation_Inr [OF init hab kv])
  have dP: "d = P" using d del by simp
  have e: "ev' = ev" using ev' ev by simp
  have f: "kevers bs1 = kevers bs" "kels bs1 = kels bs" "wigs bs1 = wigs bs"
    "witDoer_cues bs1 = witDoer_cues bs" "dpwe bs1 = dpwe bs" "cdel bs1 = cdel bs"
    "dune bs1 = pin ?k ?s (dune bs)"
    by (simp_all add: bs1 e)
  have dlg: "delegatorOf (kevers bs) D = Some dk"
    using dk by (simp add: delegatorOf_def kv d)
  have pdk: "kever_prefixer dk = P"
    using getKever_prefixer [OF dk] dP by simp
  have sub: "set (dune bs1) \<subseteq> insert (?k, ?s) (set (dune bs))"
    unfolding f by (rule set_pin)
  have res1: "escrowsResolvable bs1"
    unfolding escrowsResolvable_def f(1) f(5)
  proof (intro conjI ballI)
    fix item assume "item \<in> set (dune bs1)"
    then have "item = (?k, ?s) \<or> item \<in> set (dune bs)" using sub by blast
    then show "delegatorOf (kevers bs) (fst (fst item)) \<noteq> None"
      using dlg res by (auto simp: escrowsResolvable_def)
  next
    fix item assume "item \<in> set (dpwe bs)"
    then show "getKever (kevers bs) (fst (fst item)) \<noteq> None"
      using res by (simp add: escrowsResolvable_def)
  qed
  have dist1: "distinct (map fst (dune bs1))"
    using dist by (simp add: f pin_def distinct_update)
  have dist2: "distinct (map fst (dpwe bs1))"
    using dist by (simp add: f)
  have "map_of (dune bs1) ?k = Some ?s"
    by (simp add: f pin_def update_conv')
  then have item: "(?k, ?s) \<in> set (dune bs1)"
    by (rule map_of_SomeD)
  have a: "anchored (kevers bs1) (kels bs1) (?k, ?s)"
    unfolding f using anchored_iff [OF dlg, of "kels bs" "own_said ev" ?s] sealed
    by (simp add: pdk ownSerder_def)
  have r: "receipted (kevers bs1) (wigs bs1) (witDoer_cues bs1) (?k, ?s)"
    unfolding f using receipted_iff [OF kv, of "wigs bs" "witDoer_cues bs" "own_said ev" ?s]
    by (simp add: nowits nosigs ownSerder_def)
  have ck: "completionKey (?k, ?s) = (D, 1)"
    by (simp add: completionKey_def ownSerder_def)
  have fresh1: "map_of (cdel bs1) (completionKey (?k, ?s)) = None"
    unfolding ck f using fresh by (simp add: get_def)
  have single1: "\<forall>i \<in> set (dune bs1) \<union> set (dpwe bs1).
                   completionKey i = completionKey (?k, ?s) \<longrightarrow> i = (?k, ?s)"
  proof (intro ballI impI)
    fix i assume i: "i \<in> set (dune bs1) \<union> set (dpwe bs1)"
      and c: "completionKey i = completionKey (?k, ?s)"
    from i sub have "i = (?k, ?s) \<or> i \<in> set (dune bs) \<union> set (dpwe bs)"
      unfolding f(5) by blast
    then show "i = (?k, ?s)"
      using single c unfolding ck by blast
  qed
  obtain bs2 where tick: "processEscrows bs1 = Inr bs2"
    by (rule that [OF processEscrows_eq [OF res1]])
  note t = tick_on_anchored_record [OF res1 dist1 dist2 item a tick]
  have g1: "get (dune bs2) ?k = None"
    using t(1) by (simp add: get_def)
  have g2: "get (dpwe bs2) ?k = None"
    using t(2) [OF r] by (simp add: get_def)
  have g3: "get (cdel bs2) (D, 1) = Some (own_said ev)"
    using t(3) [OF r fresh1 single1] unfolding ck by (simp add: get_def ownSerder_def)
  have g4: "complete bs2 D 1 (Some (own_said ev)) = Inr True"
    unfolding complete_def g3 by simp
  show ?thesis
    by (intro exI [of _ bs2] conjI tick g1 g2 g3 g4)
qed

theorem zero_witness_delegation_completes_in_one_tick_witness:
  "delegation bsIdle ''D'' (Some 1) None = Inr bsInitiated \<and>
   getHab (habs bsIdle) ''D'' = Some habD \<and> map_of (hab_events habD) 1 = Some evD1 \<and>
   getKever (kevers bsIdle) ''D'' = Some keverD \<and> kever_delegator keverD = Some ''P'' \<and>
   kever_wits keverD = [] \<and> escrowsResolvable bsIdle \<and> get (cdel bsIdle) (''D'', 1) = None \<and>
   (\<exists>bs2. processEscrows bsInitiated = Inr bs2 \<and>
           get (dune bs2) (''D'', ''E1'') = None \<and>
           get (dpwe bs2) (''D'', ''E1'') = None \<and>
           get (cdel bs2) (''D'', 1) = Some ''E1'' \<and>
           complete bs2 ''D'' 1 (Some ''E1'') = Inr True)"
proof -
  have h: "getHab (habs bsIdle) ''D'' = Some habD"
    by (simp add: getHab_def example_defs)
  have e: "map_of (hab_events habD) 1 = Some evD1"
    by (simp add: example_defs)
  have k: "getKever (kevers bsIdle) ''D'' = Some keverD"
    by (simp add: getKever_def example_defs)
  have d: "kever_delegator keverD = Some ''P''"
    by (simp add: example_defs)
  have w: "kever_wits keverD = []"
    by (simp add: example_defs)
  have sealed: "\<exists>e \<in> set (kels bsIdle ''P''). (''D'', 1, own_said evD1) \<in> set (serder_seals e)"
    by (simp add: example_defs)
  have nosigs: "wigs bsIdle (dgKey ''D'' (own_said evD1)) = []"
    by (simp add: example_defs)
  have res: "escrowsResolvable bsIdle"
    by (simp add: escrowsResolvable_def example_defs)
  have dist: "distinct (map fst (dune bsIdle)) \<and> distinct (map fst (dpwe bsIdle))"
    by (simp add: example_defs)
  have fresh: "get (cdel bsIdle) (''D'', 1) = None"
    by (simp add: get_def example_defs)
  have single: "\<forall>i \<in> set (dune bsIdle) \<union> set (dpwe bsIdle).
      completionKey i = (''D'', 1) \<longrightarrow> i = ((''D'', own_said evD1), ownSerder ''D'' 1 evD1)"
    by (simp add: example_defs)
  have said: "own_said evD1 = ''E1''"
    by (simp add: example_defs)
  note inst = zero_witness_delegation_completes_in_one_tick
    [OF bsIdle_delegation h e k d w sealed nosigs res dist fresh single]
  show ?thesis
    using inst unfolding said
    by (intro conjI bsIdle_delegation h e k d w res fresh)
qed

subsection \<open>The request handler\<close>



subsection \<open>The key of the authorizer seal\<close>

text \<open>
  C8. The authorizer seal couple of an escrowed event belongs under the digest key of
  that event: the prefix of the delegated identifier and the digest of the escrowed
  event, the key under which the PartiallyWitnessed scan reads the witness signatures
  of the same event. The Unanchored scan forms the key from the digest of the latest
  event of the key state instead (\<^verbatim>\<open>kever.serder.saidb\<close>). Here the key state of \<open>D\<close>
  is at \<open>E2\<close> while \<open>E1\<close> is delegated and then anchored by \<open>P\<close>: the scan moves the
  record of \<open>E1\<close>, files the couple of the anchoring event under \<open>(D, E2)\<close>, and files
  nothing under \<open>(D, E1)\<close>.
\<close>

theorem seal_filed_under_latest_event:
  "delegation bsAhead ''D'' (Some 1) None = Inr bsStale \<and>
   get (dune bsStale) (''D'', ''E1'') = Some srdrD1 \<and>
   serder_said srdrD1 = ''E1'' \<and>
   processUnanchoredEscrow bsStale = Inr bsMisfiled \<and>
   get (dpwe bsMisfiled) (''D'', ''E1'') = Some srdrD1 \<and>
   get (aess bsMisfiled) (dgKey ''D'' ''E1'') = None \<and>
   get (aess bsMisfiled) (dgKey ''D'' ''E2'') = Some (3, ''EP'')"
proof -
  have i: "delegation bsAhead ''D'' (Some 1) None = Inr bsStale"
    by (simp add: delegation_defs example_defs)
  have s: "processUnanchoredEscrow bsStale = Inr bsMisfiled"
    by (simp add: scan_defs example_defs)
  have "get (dune bsStale) (''D'', ''E1'') = Some srdrD1 \<and>
   serder_said srdrD1 = ''E1'' \<and>
   get (dpwe bsMisfiled) (''D'', ''E1'') = Some srdrD1 \<and>
   get (aess bsMisfiled) (dgKey ''D'' ''E1'') = None \<and>
   get (aess bsMisfiled) (dgKey ''D'' ''E2'') = Some (3, ''EP'')"
    by (simp add: get_def dgKey_def example_defs)
  then show ?thesis
    using i s by simp
qed

end
